theory Spec2Isabelle
  imports Main "HOL-Library.Monad_Syntax"
begin

section \<open>The maze of Scientific American, December 1996: constants\<close>

text \<open>
  The program is one C++ file, \<^verbatim>\<open>cows.cpp\<close>. Every \<^verbatim>\<open>abort()\<close> of the source is the
  value \<open>None\<close> of an option type; C \<^verbatim>\<open>int\<close> and \<^verbatim>\<open>long\<close> values are \<open>int\<close> (no value of the
  program comes near the limits of a 32 bit integer: indices stay below 2048, depths below
  2050); an \<^verbatim>\<open>unsigned char\<close> that only ever holds 0 or 1 is a \<open>bool\<close>.
\<close>

abbreviation TRACE_ENTRIES :: int where "TRACE_ENTRIES \<equiv> 300"
abbreviation GOAL_MAZEPOINT :: int where "GOAL_MAZEPOINT \<equiv> 100"
abbreviation ILLEGAL_MAZEPOINT :: int where "ILLEGAL_MAZEPOINT \<equiv> 101"

definition START_PENCIL_0 :: int where "START_PENCIL_0 = 1"
definition START_PENCIL_1 :: int where "START_PENCIL_1 = 7"

text \<open>The codes for paths: \<^verbatim>\<open>PATH_YES = 0, PATH_NO = 1, PATH_LUGNUT = 2, PATH_NONE = 3\<close>.\<close>

datatype path = PATH_YES | PATH_NO | PATH_LUGNUT | PATH_NONE

abbreviation MAZEPOINT_COUNT :: int where "MAZEPOINT_COUNT \<equiv> 16"

definition MAZEPOINT :: "int list" where
  "MAZEPOINT = [1, 2, 5, 7, 9, 15, 25, 26, 35, 40, 50, 55, 60, 61, 65, 75]"

section \<open>class State\<close>

text \<open>
  \<^verbatim>\<open>unsigned char pencil[2]\<close> holds, for each pencil, the index of its maze point in
  \<open>MAZEPOINT\<close>, or the code 100 or 101 as it is. The two-element arrays are two fields each.
\<close>

record State =
  pencil0 :: int
  pencil1 :: int
  rule60active :: bool
  pencilMoved0 :: bool
  pencilMoved1 :: bool

text \<open>The loop of \<^verbatim>\<open>GetMazePointIndex\<close>: the first index \<open>i\<close> with \<open>MAZEPOINT[i] == m\<close>, or
  the count when the loop runs to its end.\<close>

fun mazepoint_loop :: "int \<Rightarrow> int list \<Rightarrow> int \<Rightarrow> int" where
  "mazepoint_loop m [] i = i"
| "mazepoint_loop m (x # xs) i = (if x = m then i else mazepoint_loop m xs (i + 1))"

definition GetMazePointIndex :: "int \<Rightarrow> int option" where
  "GetMazePointIndex m =
     (let i = mazepoint_loop m MAZEPOINT 0
      in if i = MAZEPOINT_COUNT then None else Some i)"

text \<open>\<^verbatim>\<open>State::State(void)\<close>\<close>

definition State_new :: State where
  "State_new = \<lparr>pencil0 = ILLEGAL_MAZEPOINT, pencil1 = ILLEGAL_MAZEPOINT,
     rule60active = False, pencilMoved0 = False, pencilMoved1 = False\<rparr>"

definition pencil_at :: "State \<Rightarrow> int \<Rightarrow> int" where
  "pencil_at s p = (if p = 0 then pencil0 s else pencil1 s)"

text \<open>\<^verbatim>\<open>State::Pencil\<close>. Reading \<open>MAZEPOINT\<close> outside its 16 entries is undefined in C++; no
  state built by \<open>SetPencil\<close> gets there, and the model fails.\<close>

definition Pencil :: "State \<Rightarrow> int \<Rightarrow> int option" where
  "Pencil s p =
     (if p < 0 \<or> 1 < p then None
      else if pencil_at s p = ILLEGAL_MAZEPOINT \<or> pencil_at s p = GOAL_MAZEPOINT
        then Some (pencil_at s p)
      else if 0 \<le> pencil_at s p \<and> pencil_at s p < MAZEPOINT_COUNT
        then Some (MAZEPOINT ! nat (pencil_at s p))
      else None)"

definition MovementP :: "State \<Rightarrow> int \<Rightarrow> bool option" where
  "MovementP s p =
     (if p < 0 \<or> 1 < p then None
      else Some (if p = 0 then pencilMoved0 s else pencilMoved1 s))"

definition Rule60P :: "State \<Rightarrow> bool" where
  "Rule60P s = rule60active s"

definition SetPencil :: "State \<Rightarrow> int \<Rightarrow> int \<Rightarrow> State option" where
  "SetPencil s p x =
     (if p < 0 \<or> 1 < p then None
      else if x = ILLEGAL_MAZEPOINT \<or> x = GOAL_MAZEPOINT
        then Some (if p = 0 then s\<lparr>pencil0 := x\<rparr> else s\<lparr>pencil1 := x\<rparr>)
      else do {
        i \<leftarrow> GetMazePointIndex x;
        Some (if p = 0 then s\<lparr>pencil0 := i\<rparr> else s\<lparr>pencil1 := i\<rparr>)
      })"

definition SetMovement :: "State \<Rightarrow> int \<Rightarrow> bool \<Rightarrow> State option" where
  "SetMovement s p x =
     (if p < 0 \<or> 1 < p then None
      else Some (if p = 0 then s\<lparr>pencilMoved0 := x\<rparr> else s\<lparr>pencilMoved1 := x\<rparr>))"

definition SetRule60 :: "State \<Rightarrow> bool \<Rightarrow> State" where
  "SetRule60 s x = s\<lparr>rule60active := x\<rparr>"

definition IllegalP :: "State \<Rightarrow> bool" where
  "IllegalP s = (pencil0 s = ILLEGAL_MAZEPOINT \<or> pencil1 s = ILLEGAL_MAZEPOINT)"

definition GoalP :: "State \<Rightarrow> bool" where
  "GoalP s = (pencil0 s = GOAL_MAZEPOINT \<or> pencil1 s = GOAL_MAZEPOINT)"

section \<open>class Transition\<close>

record Transition =
  current :: State
  next0 :: State
  next1 :: State
  altNext0 :: State
  altNext1 :: State
  visited :: int
  altNextValid0 :: bool
  altNextValid1 :: bool

text \<open>\<^verbatim>\<open>Transition::Transition(void)\<close>: the five states are default constructed.\<close>

definition Transition_new :: Transition where
  "Transition_new = \<lparr>current = State_new, next0 = State_new, next1 = State_new,
     altNext0 = State_new, altNext1 = State_new, visited = 0,
     altNextValid0 = False, altNextValid1 = False\<rparr>"

definition SetCurrentState :: "Transition \<Rightarrow> State \<Rightarrow> Transition" where
  "SetCurrentState t currentIn = t\<lparr>current := currentIn\<rparr>"

definition SetNextState :: "Transition \<Rightarrow> int \<Rightarrow> State \<Rightarrow> Transition option" where
  "SetNextState t chosenPencil nextIn =
     (if chosenPencil < 0 \<or> 1 < chosenPencil then None
      else Some (if chosenPencil = 0 then t\<lparr>next0 := nextIn\<rparr> else t\<lparr>next1 := nextIn\<rparr>))"

definition SetAltNextState :: "Transition \<Rightarrow> int \<Rightarrow> State \<Rightarrow> Transition option" where
  "SetAltNextState t chosenPencil nextIn =
     (if chosenPencil < 0 \<or> 1 < chosenPencil then None
      else Some (if chosenPencil = 0 then t\<lparr>altNext0 := nextIn, altNextValid0 := True\<rparr>
                 else t\<lparr>altNext1 := nextIn, altNextValid1 := True\<rparr>))"

definition SetVisited :: "Transition \<Rightarrow> int \<Rightarrow> Transition" where
  "SetVisited t x = t\<lparr>visited := x\<rparr>"

definition Visited :: "Transition \<Rightarrow> int" where
  "Visited t = visited t"

definition CurrentState :: "Transition \<Rightarrow> State" where
  "CurrentState t = current t"

definition NextState :: "Transition \<Rightarrow> int \<Rightarrow> State option" where
  "NextState t chosenPencil =
     (if chosenPencil < 0 \<or> 1 < chosenPencil then None
      else Some (if chosenPencil = 0 then next0 t else next1 t))"

definition AltNextState :: "Transition \<Rightarrow> int \<Rightarrow> State option" where
  "AltNextState t chosenPencil =
     (if chosenPencil < 0 \<or> 1 < chosenPencil then None
      else Some (if chosenPencil = 0 then altNext0 t else altNext1 t))"

definition AltNextValidP :: "Transition \<Rightarrow> int \<Rightarrow> bool option" where
  "AltNextValidP t chosenPencil =
     (if chosenPencil < 0 \<or> 1 < chosenPencil then None
      else Some (if chosenPencil = 0 then altNextValid0 t else altNextValid1 t))"

section \<open>class Searcher: the index of a state\<close>

definition TotalStates :: int where
  "TotalStates = MAZEPOINT_COUNT * MAZEPOINT_COUNT * 2 * 2 * 2"

definition ComputeIndex :: "State \<Rightarrow> int option" where
  "ComputeIndex s = do {
     let result = 0;
     let result = result * 2;
     m0 \<leftarrow> MovementP s 0;
     let result = (if m0 then result + 1 else result);
     let result = result * 2;
     m1 \<leftarrow> MovementP s 1;
     let result = (if m1 then result + 1 else result);
     let result = result * MAZEPOINT_COUNT;
     p0 \<leftarrow> Pencil s 0;
     i0 \<leftarrow> GetMazePointIndex p0;
     let result = result + i0;
     let result = result * MAZEPOINT_COUNT;
     p1 \<leftarrow> Pencil s 1;
     i1 \<leftarrow> GetMazePointIndex p1;
     let result = result + i1;
     let result = result * 2;
     let result = (if Rule60P s then result + 1 else result);
     Some result
   }"

section \<open>The decisions of the boxes\<close>

definition HasBoxRedTextOrGreenTextP :: "int \<Rightarrow> bool" where
  "HasBoxRedTextOrGreenTextP x =
     (x = 7 \<or> x = 26 \<or> x = 61 \<or> x = 25 \<or> x = 50 \<or> x = 60 \<or> x = 9 \<or> x = 40)"

definition HasBoxGreenTextOrGreenWordP :: "int \<Rightarrow> bool" where
  "HasBoxGreenTextOrGreenWordP x =
     (x = 60 \<or> x = 5 \<or> x = 25 \<or> x = 2 \<or> x = 65 \<or> x = 40 \<or> x = 1)"

definition HasBoxRedWordOrGreenWordP :: "int \<Rightarrow> bool" where
  "HasBoxRedWordOrGreenWordP x =
     (x = 5 \<or> x = 25 \<or> x = 2 \<or> x = 60 \<or> x = 1 \<or> x = 40 \<or> x = 65)"

text \<open>\<^verbatim>\<open>x%2==1\<close>: the C++ remainder of a negative number is never 1.\<close>

definition HasBoxOddNumberP :: "int \<Rightarrow> bool" where
  "HasBoxOddNumberP x = (0 \<le> x \<and> x mod 2 = 1)"

definition HasBoxWordWordP :: "int \<Rightarrow> bool" where
  "HasBoxWordWordP x = (x = 35 \<or> x = 5)"

definition HasBoxMultipleOfFiveNumberP :: "int \<Rightarrow> bool" where
  "HasBoxMultipleOfFiveNumberP x = (x mod 5 = 0)"

definition DoesBoxReferToCowsP :: "int \<Rightarrow> bool" where
  "DoesBoxReferToCowsP x = (x = 50)"

definition GetYesPath :: "int \<Rightarrow> int option" where
  "GetYesPath x =
     (if x = 1 then Some 2
      else if x = 2 then Some 7
      else if x = 5 then Some 25
      else if x = 7 then Some 26
      else if x = 9 then Some 2
      else if x = 15 then Some 5
      else if x = 25 then Some 7
      else if x = 26 then Some 61
      else if x = 35 then Some 40
      else if x = 40 then Some 65
      else if x = 50 then Some GOAL_MAZEPOINT
      else if x = 55 then Some 15
      else if x = 60 then Some 25
      else if x = 61 then Some 1
      else if x = 65 then Some 75
      else if x = 75 then Some 1
      else None)"

definition HasBoxIfSentenceP :: "int \<Rightarrow> bool" where
  "HasBoxIfSentenceP x = (x = 61 \<or> x = 26 \<or> x = 65)"

section \<open>DetermineNextStates\<close>

text \<open>
  Nearly every branch of the switch ends in the same four statements
  \<^verbatim>\<open>next.SetPencil(chosenPencil,mp); next.SetMovement(chosenPencil,TRUE);
  trs.SetNextState(chosenPencil,next); pathTaken = ...;\<close>
  which \<open>exit_to\<close> names. The function returns the transition it was given by reference,
  updated, and \<open>pathTaken\<close>.
\<close>

definition exit_to :: "int \<Rightarrow> int \<Rightarrow> path \<Rightarrow> State \<Rightarrow> Transition \<Rightarrow> (Transition \<times> path) option" where
  "exit_to chosenPencil mp pathTaken next trs = do {
     next \<leftarrow> SetPencil next chosenPencil mp;
     next \<leftarrow> SetMovement next chosenPencil True;
     trs \<leftarrow> SetNextState trs chosenPencil next;
     Some (trs, pathTaken)
   }"

text \<open>
  The switch on \<open>current.Pencil(chosenPencil)\<close> is the chain of tests on \<open>box\<close>. Box 26 calls
  the function again, for the other pencil, on a copy \<open>tmp\<close> of the transition, and keeps
  only the path taken there.
\<close>

function DetermineNextStates :: "int \<Rightarrow> Transition \<Rightarrow> (Transition \<times> path) option" where
  "DetermineNextStates chosenPencil trs =
     (let current = CurrentState trs in do {
        next \<leftarrow> SetMovement current 0 False;
        next \<leftarrow> SetMovement next 1 False;
        let otherPencil = (chosenPencil + 1) mod 2;
        if IllegalP current \<or> GoalP current then None
        else do {
          box \<leftarrow> Pencil current chosenPencil;
          if box = 1 then do {
            other \<leftarrow> Pencil current otherPencil;
            if HasBoxRedTextOrGreenTextP other then exit_to chosenPencil 2 PATH_YES next trs
            else exit_to chosenPencil 9 PATH_NO next trs
          }
          else if box = 2 then do {
            other \<leftarrow> Pencil current otherPencil;
            if HasBoxGreenTextOrGreenWordP other then exit_to chosenPencil 7 PATH_YES next trs
            else exit_to chosenPencil 15 PATH_NO next trs
          }
          else if box = 5 then do {
            other \<leftarrow> Pencil current otherPencil;
            if HasBoxRedWordOrGreenWordP other then exit_to chosenPencil 25 PATH_YES next trs
            else exit_to chosenPencil 2 PATH_NO next trs
          }
          else if box = 7 then
            (if Rule60P current then exit_to chosenPencil 26 PATH_YES next trs
             else do {
               other \<leftarrow> Pencil current otherPencil;
               if HasBoxOddNumberP other then exit_to chosenPencil 26 PATH_YES next trs
               else exit_to chosenPencil 5 PATH_NO next trs
             })
          else if box = 9 then
            (if Rule60P current then exit_to chosenPencil 2 PATH_YES next trs
             else do {
               moved \<leftarrow> MovementP current otherPencil;
               if moved then exit_to chosenPencil 2 PATH_YES next trs
               else exit_to chosenPencil 35 PATH_NO next trs
             })
          else if box = 15 then do {
            other \<leftarrow> Pencil current otherPencil;
            if HasBoxMultipleOfFiveNumberP other then exit_to chosenPencil 5 PATH_YES next trs
            else exit_to chosenPencil 40 PATH_NO next trs
          }
          else if box = 25 then
            (if Rule60P current then exit_to chosenPencil 7 PATH_YES next trs
             else do {
               other \<leftarrow> Pencil current otherPencil;
               if HasBoxRedTextOrGreenTextP other then exit_to chosenPencil 7 PATH_YES next trs
               else exit_to chosenPencil 50 PATH_NO next trs
             })
          else if box = 26 then
            (if Rule60P current then exit_to chosenPencil 61 PATH_YES next trs
             else do {
               other \<leftarrow> Pencil current otherPencil;
               if other = 26 then do {
                 next \<leftarrow> SetPencil next chosenPencil ILLEGAL_MAZEPOINT;
                 next \<leftarrow> SetPencil next otherPencil ILLEGAL_MAZEPOINT;
                 trs \<leftarrow> SetNextState trs chosenPencil next;
                 Some (trs, PATH_NONE)
               }
               else do {
                 let tmp = trs;
                 (tmp, otherPath) \<leftarrow> DetermineNextStates otherPencil tmp;
                 if otherPath = PATH_NO then exit_to chosenPencil 61 PATH_YES next trs
                 else exit_to chosenPencil 55 PATH_NO next trs
               }
             })
          else if box = 35 then do {
            other \<leftarrow> Pencil current otherPencil;
            if HasBoxWordWordP other then exit_to chosenPencil 40 PATH_YES next trs
            else exit_to chosenPencil 1 PATH_NO next trs
          }
          else if box = 40 then
            (if Rule60P current then exit_to chosenPencil 65 PATH_YES next trs
             else exit_to chosenPencil 60 PATH_NO next trs)
          else if box = 50 then
            (if Rule60P current then exit_to chosenPencil GOAL_MAZEPOINT PATH_YES next trs
             else do {
               other \<leftarrow> Pencil current otherPencil;
               if DoesBoxReferToCowsP other
               then exit_to chosenPencil GOAL_MAZEPOINT PATH_YES next trs
               else exit_to chosenPencil 26 PATH_NO next trs
             })
          else if box = 55 then do {
            next \<leftarrow> SetPencil next chosenPencil 15;
            next \<leftarrow> SetMovement next chosenPencil True;
            trs \<leftarrow> SetNextState trs chosenPencil next;
            next \<leftarrow> SetPencil next chosenPencil 7;
            trs \<leftarrow> SetAltNextState trs chosenPencil next;
            Some (trs, PATH_LUGNUT)
          }
          else if box = 60 then do {
            next \<leftarrow> SetPencil next chosenPencil 25;
            next \<leftarrow> SetMovement next chosenPencil True;
            let next = SetRule60 next True;
            trs \<leftarrow> SetNextState trs chosenPencil next;
            Some (trs, PATH_YES)
          }
          else if box = 61 then
            (if Rule60P current then exit_to chosenPencil 1 PATH_YES next trs
             else do {
               next \<leftarrow> SetPencil next chosenPencil 1;
               next \<leftarrow> SetMovement next chosenPencil True;
               other \<leftarrow> Pencil current otherPencil;
               yes \<leftarrow> GetYesPath other;
               next \<leftarrow> SetPencil next otherPencil yes;
               next \<leftarrow> SetMovement next otherPencil True;
               trs \<leftarrow> SetNextState trs chosenPencil next;
               Some (trs, PATH_YES)
             })
          else if box = 65 then do {
            next \<leftarrow> SetPencil next chosenPencil 75;
            let next = SetRule60 next False;
            next \<leftarrow> SetMovement next chosenPencil True;
            trs \<leftarrow> SetNextState trs chosenPencil next;
            Some (trs, PATH_YES)
          }
          else if box = 75 then do {
            other \<leftarrow> Pencil current otherPencil;
            if HasBoxIfSentenceP other then exit_to chosenPencil 1 PATH_YES next trs
            else exit_to chosenPencil 50 PATH_NO next trs
          }
          else None
        }
      })"
  by pat_completeness auto

text \<open>The nested call is never for box 26 with the rule of box 60 off, so it does not
  call again.\<close>

termination DetermineNextStates
  by (relation "measure (\<lambda>(p, trs).
        if Pencil (CurrentState trs) p = Some 26 \<and> \<not> Rule60P (CurrentState trs) then 1 else 0)")
     (auto simp: Pencil_def MovementP_def SetMovement_def split: if_splits)

declare DetermineNextStates.simps [simp del]

section \<open>EnumerateTransitions and the constructor\<close>

text \<open>A loop over a fixed list of values of its variable; the body may abort.\<close>

primrec for_each :: "'a list \<Rightarrow> ('a \<Rightarrow> 's \<Rightarrow> 's option) \<Rightarrow> 's \<Rightarrow> 's option" where
  "for_each [] body s = Some s"
| "for_each (x # xs) body s =
     (case body x s of None \<Rightarrow> None | Some s' \<Rightarrow> for_each xs body s')"

text \<open>
  The innermost block of \<^verbatim>\<open>EnumerateTransitions\<close>, on the array \<open>space\<close>. The \<^verbatim>\<open>assert\<close> is
  an abort; so is an index outside the array, which the source does not test for.
\<close>

definition enumerate_block ::
  "bool \<Rightarrow> bool \<Rightarrow> int \<Rightarrow> int \<Rightarrow> bool \<Rightarrow> Transition list \<Rightarrow> Transition list option" where
  "enumerate_block pencil0mv pencil1mv curP0 curP1 curR60 space = do {
     let current = State_new;
     current \<leftarrow> SetPencil current 0 (MAZEPOINT ! nat curP0);
     current \<leftarrow> SetPencil current 1 (MAZEPOINT ! nat curP1);
     let current = SetRule60 current curR60;
     current \<leftarrow> SetMovement current 0 pencil0mv;
     current \<leftarrow> SetMovement current 1 pencil1mv;
     index \<leftarrow> ComputeIndex current;
     if \<not> index < TotalStates then None
     else if index < 0 \<or> int (length space) \<le> index then None
     else do {
       let trs = SetCurrentState (space ! nat index) current;
       (trs, pathTaken) \<leftarrow> DetermineNextStates 0 trs;
       (trs, pathTaken) \<leftarrow> DetermineNextStates 1 trs;
       Some (space[nat index := trs])
     }
   }"

text \<open>Each \<^verbatim>\<open>do ... while\<close> loop runs its boolean through TRUE, then FALSE; each \<^verbatim>\<open>for\<close> loop
  runs from 0 to 15.\<close>

definition EnumerateTransitions :: "Transition list \<Rightarrow> Transition list option" where
  "EnumerateTransitions =
     for_each [True, False] (\<lambda>pencil0mv.
       for_each [True, False] (\<lambda>pencil1mv.
         for_each [0 ..< 16] (\<lambda>curP0.
           for_each [0 ..< 16] (\<lambda>curP1.
             for_each [True, False] (\<lambda>curR60.
               enumerate_block pencil0mv pencil1mv (int curP0) (int curP1) curR60)))))"

text \<open>\<^verbatim>\<open>Searcher::Searcher(void)\<close>: the array of \<open>TotalStates()\<close> default transitions, then
  the enumeration.\<close>

definition Searcher_new :: "Transition list option" where
  "Searcher_new = EnumerateTransitions (replicate (nat TotalStates) Transition_new)"

section \<open>The traversal\<close>

text \<open>What the traversal writes to \<^verbatim>\<open>std::cerr\<close> and \<^verbatim>\<open>std::cout\<close>, in order.\<close>

datatype message =
    IllegalStateEncountered
  | GoalStateEncountered int
  | StackTraceDump int "State list"
  | MaximalDepth int

text \<open>
  Why a traversal does not return a result: an \<^verbatim>\<open>abort()\<close>, an access outside an array
  (undefined in C++), or the end of the fuel that bounds the depth of the recursion in
  the model.
\<close>

datatype failure = Abort | OutOfBounds | OutOfFuel

text \<open>What \<^verbatim>\<open>RecTraverse\<close> reads and writes: the member \<open>space\<close>, the reference \<open>maxDepth\<close>,
  the array \<open>stackTrace\<close> and the output.\<close>

record Search =
  space :: "Transition list"
  maxDepth :: int
  stackTrace :: "State list"
  out :: "message list"

definition DumpStackTrace :: "State list \<Rightarrow> int \<Rightarrow> message list" where
  "DumpStackTrace trace depth =
     (if depth > 37 then [] else [StackTraceDump depth (take (nat depth) trace)])"

text \<open>
  The three-way test on one successor state: \<open>Inr (True, s)\<close> is a \<^verbatim>\<open>return\<close> from
  \<^verbatim>\<open>RecTraverse\<close>, \<open>Inr (False, s)\<close> goes on after the recursive call \<open>rec\<close>.
\<close>

definition try_state ::
  "(int \<Rightarrow> int \<Rightarrow> Search \<Rightarrow> failure + Search) \<Rightarrow> State \<Rightarrow> int \<Rightarrow> Search \<Rightarrow> failure + bool \<times> Search" where
  "try_state rec nxt depth s =
     (if IllegalP nxt then Inr (True, s\<lparr>out := out s @ [IllegalStateEncountered]\<rparr>)
      else if GoalP nxt
        then Inr (True, s\<lparr>out := out s @ GoalStateEncountered depth # DumpStackTrace (stackTrace s) depth\<rparr>)
      else (case ComputeIndex nxt of
              None \<Rightarrow> Inl Abort
            | Some nextState \<Rightarrow>
                (case rec nextState (depth + 1) s of
                   Inl e \<Rightarrow> Inl e
                 | Inr s' \<Rightarrow> Inr (False, s'))))"

text \<open>The loop \<^verbatim>\<open>for (int pencil=0;pencil<2;pencil++)\<close> over the pencils still to do.\<close>

fun pencil_loop ::
  "(int \<Rightarrow> int \<Rightarrow> Search \<Rightarrow> failure + Search) \<Rightarrow> int \<Rightarrow> int \<Rightarrow> int list \<Rightarrow> Search \<Rightarrow> failure + Search" where
  "pencil_loop rec index depth [] s = Inr s"
| "pencil_loop rec index depth (pencil # pencils) s =
     (case NextState (space s ! nat index) pencil of
        None \<Rightarrow> Inl Abort
      | Some nxt \<Rightarrow>
          (case try_state rec nxt depth s of
             Inl e \<Rightarrow> Inl e
           | Inr (True, s) \<Rightarrow> Inr s
           | Inr (False, s) \<Rightarrow>
               (case AltNextValidP (space s ! nat index) pencil of
                  None \<Rightarrow> Inl Abort
                | Some False \<Rightarrow> pencil_loop rec index depth pencils s
                | Some True \<Rightarrow>
                    (case AltNextState (space s ! nat index) pencil of
                       None \<Rightarrow> Inl Abort
                     | Some alt \<Rightarrow>
                         (case try_state rec alt depth s of
                            Inl e \<Rightarrow> Inl e
                          | Inr (True, s) \<Rightarrow> Inr s
                          | Inr (False, s) \<Rightarrow> pencil_loop rec index depth pencils s)))))"

text \<open>The body of \<^verbatim>\<open>RecTraverse\<close>, with the recursive call as \<open>rec\<close>.\<close>

definition RecTraverse_body ::
  "(int \<Rightarrow> int \<Rightarrow> Search \<Rightarrow> failure + Search) \<Rightarrow> int \<Rightarrow> int \<Rightarrow> Search \<Rightarrow> failure + Search" where
  "RecTraverse_body rec index depth s =
     (if index < 0 \<or> int (length (space s)) \<le> index then Inl OutOfBounds
      else if Visited (space s ! nat index) > 0 \<and> Visited (space s ! nat index) \<le> depth
        then Inr s
      else
        (let s = s\<lparr>space := (space s)[nat index := SetVisited (space s ! nat index) depth]\<rparr>;
             s = (if maxDepth s < depth then s\<lparr>maxDepth := depth\<rparr> else s)
         in if depth \<le> TRACE_ENTRIES
            then (if depth - 1 < 0 \<or> int (length (stackTrace s)) \<le> depth - 1 then Inl OutOfBounds
                  else pencil_loop rec index depth [0, 1]
                         (s\<lparr>stackTrace := (stackTrace s)[nat (depth - 1) :=
                                             CurrentState (space s ! nat index)]\<rparr>))
            else pencil_loop rec index depth [0, 1] s))"

text \<open>\<^verbatim>\<open>RecTraverse\<close>; the first argument bounds the depth of the recursion.\<close>

primrec RecTraverse :: "nat \<Rightarrow> int \<Rightarrow> int \<Rightarrow> Search \<Rightarrow> failure + Search" where
  "RecTraverse 0 = (\<lambda>index depth s. Inl OutOfFuel)"
| "RecTraverse (Suc fuel) = RecTraverse_body (RecTraverse fuel)"

text \<open>\<^verbatim>\<open>StartTraversal\<close>, on the array \<open>space\<close> of the searcher.\<close>

definition StartTraversal :: "nat \<Rightarrow> Transition list \<Rightarrow> failure + Search" where
  "StartTraversal fuel space0 =
     (let stackTrace0 = replicate (nat TRACE_ENTRIES) State_new;
          start = State_new;
          maxDepth0 = 0
      in case (do {
                 start \<leftarrow> SetPencil start 0 START_PENCIL_0;
                 start \<leftarrow> SetPencil start 1 START_PENCIL_1;
                 ComputeIndex start
               }) of
           None \<Rightarrow> Inl Abort
         | Some index \<Rightarrow>
             (case RecTraverse fuel index 1
                     \<lparr>space = space0, maxDepth = maxDepth0, stackTrace = stackTrace0, out = []\<rparr> of
                Inl e \<Rightarrow> Inl e
              | Inr s \<Rightarrow> Inr (s\<lparr>out := out s @ [MaximalDepth (maxDepth s)]\<rparr>)))"

text \<open>The first two statements of \<^verbatim>\<open>main\<close>: construct the searcher, start the traversal.\<close>

definition run_search :: "nat \<Rightarrow> failure + Search" where
  "run_search fuel =
     (case Searcher_new of None \<Rightarrow> Inl Abort | Some space0 \<Rightarrow> StartTraversal fuel space0)"


section \<open>Notions used in the statements\<close>

text \<open>A state with both pencils on maze points: the states that index the array.\<close>

definition legal :: "State \<Rightarrow> bool" where
  "legal s = (0 \<le> pencil0 s \<and> pencil0 s < MAZEPOINT_COUNT \<and>
              0 \<le> pencil1 s \<and> pencil1 s < MAZEPOINT_COUNT)"

text \<open>The state that \<open>ComputeIndex\<close> maps to \<open>i\<close>: the digits of \<open>i\<close> in the mixed radix
  2, 2, 16, 16, 2 of \<open>ComputeIndex\<close>.\<close>

definition state_at :: "int \<Rightarrow> State" where
  "state_at i = \<lparr>pencil0 = i div 32 mod 16, pencil1 = i div 2 mod 16,
     rule60active = (i mod 2 = 1),
     pencilMoved0 = (i div 1024 mod 2 = 1), pencilMoved1 = (i div 512 mod 2 = 1)\<rparr>"

text \<open>
  The states from which no sequence of moves gets both pencils stuck: both pencils on
  maze points, and, while the rule of box 60 is off, the pencils not on boxes 26 and 26,
  50 and 26, or 26 and 50 (26 is entry 7 of \<open>MAZEPOINT\<close>, 50 is entry 10).
\<close>

definition clear_of_deadlock :: "State \<Rightarrow> bool" where
  "clear_of_deadlock s =
     (legal s \<and>
      \<not> (\<not> rule60active s \<and>
           (pencil0 s = 7 \<and> pencil1 s = 7 \<or> pencil0 s = 10 \<and> pencil1 s = 7 \<or>
            pencil0 s = 7 \<and> pencil1 s = 10)))"

text \<open>The successor states that a transition holds for pencil \<open>p\<close>, in the order in
  which the traversal looks at them: the primary state, then the alternate one when its
  flag is set.\<close>

definition branches :: "Transition \<Rightarrow> int \<Rightarrow> State list" where
  "branches t p =
     (case NextState t p of None \<Rightarrow> [] | Some n \<Rightarrow> [n]) @
     (case (AltNextValidP t p, AltNextState t p) of
        (Some True, Some alt) \<Rightarrow> [alt]
      | _ \<Rightarrow> [])"

text \<open>
  The successor states that \<open>DetermineNextStates\<close> records for pencil \<open>p\<close> on a fresh
  transition whose current state is \<open>c\<close>, as the enumeration calls it.
\<close>

definition successors :: "State \<Rightarrow> int \<Rightarrow> State list" where
  "successors c p =
     (case DetermineNextStates p (SetCurrentState Transition_new c) of
        None \<Rightarrow> []
      | Some (t', path) \<Rightarrow> branches t' p)"

text \<open>A sequence of moves from a state to a state, with the list of the boxes whose
  rules were applied, in order.\<close>

inductive moves :: "State \<Rightarrow> int list \<Rightarrow> State \<Rightarrow> bool" where
  moves_none: "moves c [] c"
| moves_step: "legal c \<Longrightarrow> p = 0 \<or> p = 1 \<Longrightarrow> Pencil c p = Some box \<Longrightarrow>
     c' \<in> set (successors c p) \<Longrightarrow> moves c' boxes c'' \<Longrightarrow> moves c (box # boxes) c''"

text \<open>The transition that the enumeration stores for the state \<open>c\<close>: a default
  transition with \<open>c\<close> as current state, after the rules of pencil 0 and of pencil 1.\<close>

definition transition_of :: "State \<Rightarrow> Transition option" where
  "transition_of c = do {
     (trs, pathTaken) \<leftarrow> DetermineNextStates 0 (SetCurrentState Transition_new c);
     (trs, pathTaken) \<leftarrow> DetermineNextStates 1 trs;
     Some trs
   }"

text \<open>The array while the enumeration runs: the states of \<open>S\<close> are done, the entries of
  all other states are still default transitions.\<close>

definition table_upto :: "State set \<Rightarrow> Transition list \<Rightarrow> bool" where
  "table_upto S sp =
     (length sp = 2048 \<and>
      (\<forall>c. legal c \<longrightarrow>
         sp ! nat (the (ComputeIndex c)) =
           (if c \<in> S then the (transition_of c) else Transition_new)))"

text \<open>A part \<open>f\<close> of the enumeration does the states of \<open>X\<close>, whatever was done before.\<close>

definition enumerates :: "(Transition list \<Rightarrow> Transition list option) \<Rightarrow> State set \<Rightarrow> bool" where
  "enumerates f X =
     (\<forall>S sp. table_upto S sp \<and> S \<inter> X = {} \<longrightarrow>
        (\<exists>sp'. f sp = Some sp' \<and> table_upto (S \<union> X) sp'))"

section \<open>Notions used in the statements about the traversal\<close>

text \<open>The state of the search in which \<open>StartTraversal\<close> makes its call of \<open>RecTraverse\<close>.\<close>

definition initial_search :: "Transition list \<Rightarrow> Search" where
  "initial_search sp =
     \<lparr>space = sp, maxDepth = 0, stackTrace = replicate (nat TRACE_ENTRIES) State_new, out = []\<rparr>"

text \<open>Two transitions that differ at most in the counter \<open>visited\<close>.\<close>

definition same_rules :: "Transition \<Rightarrow> Transition \<Rightarrow> bool" where
  "same_rules t t' = (t'\<lparr>visited := visited t\<rparr> = t)"

text \<open>
  What a call of \<open>RecTraverse\<close> at depth \<open>d\<close> may do to the state of the search: the
  arrays keep their lengths, \<open>maxDepth\<close> does not go down, the output is extended, and
  it is extended by nothing or by something that holds a message about an illegal
  state or a goal; each transition keeps everything but its counter, and a counter that
  changes becomes a depth from \<open>d\<close> on that is smaller than the old value, unless the old
  value was 0 (not visited).
\<close>

definition descends :: "int \<Rightarrow> Search \<Rightarrow> Search \<Rightarrow> bool" where
  "descends d s s' =
     (length (space s') = length (space s) \<and>
      length (stackTrace s') = length (stackTrace s) \<and>
      maxDepth s \<le> maxDepth s' \<and>
      (\<forall>i < length (space s).
         same_rules (space s ! i) (space s' ! i) \<and>
         (visited (space s' ! i) = visited (space s ! i) \<or>
          d \<le> visited (space s' ! i) \<and>
          (visited (space s ! i) \<le> 0 \<or> visited (space s' ! i) < visited (space s ! i)))) \<and>
      (\<exists>ms. out s' = out s @ ms \<and>
         (ms \<noteq> [] \<longrightarrow>
            (\<exists>m \<in> set ms. m = IllegalStateEncountered \<or> (\<exists>k. m = GoalStateEncountered k)))))"

text \<open>The three-way test on a list of successor states, one after the other, until one
  of them makes \<open>RecTraverse\<close> return.\<close>

fun try_states ::
  "(int \<Rightarrow> int \<Rightarrow> Search \<Rightarrow> failure + Search) \<Rightarrow> State list \<Rightarrow> int \<Rightarrow> Search \<Rightarrow> failure + bool \<times> Search" where
  "try_states rec [] depth s = Inr (False, s)"
| "try_states rec (x # xs) depth s =
     (case try_state rec x depth s of
        Inl e \<Rightarrow> Inl e
      | Inr (True, s') \<Rightarrow> Inr (True, s')
      | Inr (False, s') \<Rightarrow> try_states rec xs depth s')"

text \<open>The array of the searcher, up to the counters: 2048 transitions, the one at each
  index being the transition of the state with that index.\<close>

definition built :: "Transition list \<Rightarrow> bool" where
  "built sp =
     (length sp = 2048 \<and>
      (\<forall>i < 2048. same_rules (the (transition_of (state_at (int i)))) (sp ! i)))"

text \<open>The indices that a visit at depth \<open>d\<close> would not prune.\<close>

definition unpruned :: "Search \<Rightarrow> int \<Rightarrow> nat set" where
  "unpruned s d =
     {i. i < length (space s) \<and>
         \<not> (Visited (space s ! i) > 0 \<and> Visited (space s ! i) \<le> d)}"

text \<open>A function that, called in place of \<open>RecTraverse\<close> at depth \<open>d\<close>, changes the state of
  the search as described.\<close>

definition well_behaved :: "(int \<Rightarrow> int \<Rightarrow> Search \<Rightarrow> failure + Search) \<Rightarrow> int \<Rightarrow> bool" where
  "well_behaved rec d = (\<forall>j s s'. rec j d s = Inr s' \<longrightarrow> descends d s s')"

text \<open>The state of the search when a visit that is not pruned starts its loop over the
  pencils: the counter is set, the maximal depth is recorded, the state is traced.\<close>

definition enter :: "int \<Rightarrow> int \<Rightarrow> Search \<Rightarrow> Search" where
  "enter index depth s =
     (let s = s\<lparr>space := (space s)[nat index := SetVisited (space s ! nat index) depth]\<rparr>;
          s = (if maxDepth s < depth then s\<lparr>maxDepth := depth\<rparr> else s)
      in if depth \<le> TRACE_ENTRIES
         then s\<lparr>stackTrace := (stackTrace s)[nat (depth - 1) := CurrentState (space s ! nat index)]\<rparr>
         else s)"

text \<open>The array that the constructor of the searcher builds.\<close>

definition the_space :: "Transition list" where
  "the_space = the Searcher_new"

text \<open>One call of the traversal after another, and the counter of an index in a result.\<close>

definition and_then :: "failure + Search \<Rightarrow> (Search \<Rightarrow> failure + Search) \<Rightarrow> failure + Search" where
  "and_then r f = (case r of Inl e \<Rightarrow> Inl e | Inr s \<Rightarrow> f s)"

definition first_seen :: "failure + Search \<Rightarrow> nat \<Rightarrow> int option" where
  "first_seen r i = (case r of Inl e \<Rightarrow> None | Inr s \<Rightarrow> Some (Visited (space s ! i)))"

text \<open>
  An index is settled in a state of the search when no successor of its state, for
  either pencil, is an illegal state or a goal, and the counters of all of them are set.
  The unsettled indices are those whose counter is set and that are not settled.
\<close>

definition settled :: "Search \<Rightarrow> nat \<Rightarrow> bool" where
  "settled s i =
     (\<forall>p\<in>{0, 1}. \<forall>x\<in>set (successors (state_at (int i)) p).
        \<not> IllegalP x \<and> \<not> GoalP x \<and>
        (\<exists>j. ComputeIndex x = Some j \<and> 0 < visited (space s ! nat j)))"

definition unsettled :: "Search \<Rightarrow> nat set" where
  "unsettled s = {i. i < 2048 \<and> 0 < visited (space s ! i) \<and> \<not> settled s i}"

text \<open>The state reached from a state by a list of choices of a pencil, each time by the
  primary successor of the rule of that pencil.\<close>

fun follow :: "State \<Rightarrow> int list \<Rightarrow> State option" where
  "follow c [] = Some c"
| "follow c (p # ps) =
     (if legal c \<and> (p = 0 \<or> p = 1)
      then (case successors c p of [] \<Rightarrow> None | n # ns \<Rightarrow> follow n ps)
      else None)"

text \<open>Whether a traversal returned a result, and the messages of its output.\<close>

definition returned :: "failure + Search \<Rightarrow> bool" where
  "returned r = (case r of Inl e \<Rightarrow> False | Inr s \<Rightarrow> True)"

definition messages :: "failure + Search \<Rightarrow> message list" where
  "messages r = (case r of Inl e \<Rightarrow> [] | Inr s \<Rightarrow> out s)"

fun goal_message :: "message \<Rightarrow> bool" where
  "goal_message (GoalStateEncountered depth) = True"
| "goal_message m = False"

section \<open>The index of a state\<close>

lemma int16_cases:
  "0 \<le> (a::int) \<Longrightarrow> a < 16 \<Longrightarrow>
   a = 0 \<or> a = 1 \<or> a = 2 \<or> a = 3 \<or> a = 4 \<or> a = 5 \<or> a = 6 \<or> a = 7 \<or>
   a = 8 \<or> a = 9 \<or> a = 10 \<or> a = 11 \<or> a = 12 \<or> a = 13 \<or> a = 14 \<or> a = 15"
  by arith

lemma GetMazePointIndex_MAZEPOINT:
  assumes "0 \<le> a" "a < 16"
  shows "GetMazePointIndex (MAZEPOINT ! nat a) = Some a"
  using int16_cases[OF assms]
  by (elim disjE) (simp_all add: GetMazePointIndex_def MAZEPOINT_def)

lemma Pencil_legal:
  "legal s \<Longrightarrow> Pencil s 0 = Some (MAZEPOINT ! nat (pencil0 s))"
  "legal s \<Longrightarrow> Pencil s 1 = Some (MAZEPOINT ! nat (pencil1 s))"
  by (auto simp: legal_def Pencil_def pencil_at_def)

lemma ComputeIndex_legal:
  assumes "legal s"
  shows "ComputeIndex s =
    Some ((((of_bool (pencilMoved0 s) * 2 + of_bool (pencilMoved1 s)) * 16
            + pencil0 s) * 16 + pencil1 s) * 2 + of_bool (rule60active s))"
proof -
  from assms have a: "0 \<le> pencil0 s" "pencil0 s < 16" and b: "0 \<le> pencil1 s" "pencil1 s < 16"
    by (auto simp: legal_def)
  show ?thesis
    by (simp add: ComputeIndex_def Pencil_legal[OF assms] MovementP_def Rule60P_def
        GetMazePointIndex_MAZEPOINT[OF a] GetMazePointIndex_MAZEPOINT[OF b])
qed

lemma ComputeIndex_Some_legal:
  assumes "ComputeIndex s = Some i"
  shows "legal s"
proof -
  have g: "GetMazePointIndex 100 = None" "GetMazePointIndex 101 = None"
    by (simp_all add: GetMazePointIndex_def MAZEPOINT_def)
  from assms show ?thesis
    by (auto simp: ComputeIndex_def Pencil_def pencil_at_def MovementP_def legal_def g
        split: if_splits Option.bind_splits)
qed

lemma of_bool_mod2: "of_bool (x mod 2 = 1) = (x::int) mod 2"
  by (cases "x mod 2 = 1") auto

lemma radix_compose:
  fixes i :: int
  assumes "0 \<le> i" "i < 2048"
  shows "((((i div 1024 mod 2) * 2 + i div 512 mod 2) * 16 + i div 32 mod 16) * 16
           + i div 2 mod 16) * 2 + i mod 2 = i"
proof -
  have 1: "i mod 32 = 2 * (i div 2 mod 16) + i mod 2"
    using zmod_zmult2_eq[of 16 i 2] by simp
  have 2: "i mod 512 = 32 * (i div 32 mod 16) + i mod 32"
    using zmod_zmult2_eq[of 16 i 32] by simp
  have 3: "i mod 1024 = 512 * (i div 512 mod 2) + i mod 512"
    using zmod_zmult2_eq[of 2 i 512] by simp
  have 4: "i mod 2048 = 1024 * (i div 1024 mod 2) + i mod 1024"
    using zmod_zmult2_eq[of 2 i 1024] by simp
  have 5: "i mod 2048 = i" using assms by simp
  show ?thesis using 1 2 3 4 5 by simp
qed

lemma radix_digit:
  fixes q k r :: int
  assumes "0 \<le> r" "r < k"
  shows "(q * k + r) div k = q" "(q * k + r) mod k = r"
  using assms by simp_all

lemma radix_split:
  fixes a b m0 m1 r :: int
  assumes "0 \<le> a" "a < 16" "0 \<le> b" "b < 16" "0 \<le> m0" "m0 < 2" "0 \<le> m1" "m1 < 2"
    "0 \<le> r" "r < 2"
  defines "i \<equiv> ((((m0 * 2 + m1) * 16 + a) * 16 + b) * 2 + r)"
  shows "i mod 2 = r" "i div 2 mod 16 = b" "i div 32 mod 16 = a" "i div 512 mod 2 = m1"
    "i div 1024 mod 2 = m0" "0 \<le> i" "i < 2048"
proof -
  have d2: "i div 2 = ((m0 * 2 + m1) * 16 + a) * 16 + b"
    unfolding i_def by (rule radix_digit; fact)
  have "i div 32 = i div 2 div 16"
    using zdiv_zmult2_eq[of 16 i 2] by simp
  also have "\<dots> = (m0 * 2 + m1) * 16 + a"
    unfolding d2 by (rule radix_digit; fact)
  finally have d32: "i div 32 = (m0 * 2 + m1) * 16 + a" .
  have "i div 512 = i div 32 div 16"
    using zdiv_zmult2_eq[of 16 i 32] by simp
  also have "\<dots> = m0 * 2 + m1"
    unfolding d32 by (rule radix_digit; fact)
  finally have d512: "i div 512 = m0 * 2 + m1" .
  have "i div 1024 = i div 512 div 2"
    using zdiv_zmult2_eq[of 2 i 512] by simp
  also have "\<dots> = m0"
    unfolding d512 by (rule radix_digit; fact)
  finally have d1024: "i div 1024 = m0" .
  show "i mod 2 = r" unfolding i_def by (rule radix_digit; fact)
  show "i div 2 mod 16 = b" unfolding d2 by (rule radix_digit; fact)
  show "i div 32 mod 16 = a" unfolding d32 by (rule radix_digit; fact)
  show "i div 512 mod 2 = m1" unfolding d512 by (rule radix_digit; fact)
  show "i div 1024 mod 2 = m0" unfolding d1024 using assms by simp
  show "0 \<le> i" using assms unfolding i_def by simp
  show "i < 2048" using assms unfolding i_def by simp
qed

lemma of_bool_range: "0 \<le> (of_bool b :: int)" "(of_bool b :: int) < 2"
  by simp_all

lemma of_bool_eq_1: "((of_bool b :: int) = 1) = b"
  by simp

lemma ComputeIndex_range:
  assumes "legal s" "ComputeIndex s = Some i"
  shows "0 \<le> i" "i < TotalStates"
proof -
  from assms(1) have ab: "0 \<le> pencil0 s" "pencil0 s < 16" "0 \<le> pencil1 s" "pencil1 s < 16"
    by (auto simp: legal_def)
  from assms have i: "i = (((of_bool (pencilMoved0 s) * 2 + of_bool (pencilMoved1 s)) * 16
            + pencil0 s) * 16 + pencil1 s) * 2 + of_bool (rule60active s)"
    by (simp add: ComputeIndex_legal)
  show "0 \<le> i" unfolding i by (rule radix_split(6); (rule ab of_bool_range)?)
  show "i < TotalStates"
    unfolding i TotalStates_def using radix_split(7)[OF ab(1,2,3,4) of_bool_range of_bool_range of_bool_range,
      of "pencilMoved0 s" "pencilMoved1 s" "rule60active s"] by simp
qed

lemma state_at_ComputeIndex:
  assumes "legal s" "ComputeIndex s = Some i"
  shows "state_at i = s"
proof -
  from assms(1) have ab: "0 \<le> pencil0 s" "pencil0 s < 16" "0 \<le> pencil1 s" "pencil1 s < 16"
    by (auto simp: legal_def)
  from assms have i: "i = (((of_bool (pencilMoved0 s) * 2 + of_bool (pencilMoved1 s)) * 16
            + pencil0 s) * 16 + pencil1 s) * 2 + of_bool (rule60active s)"
    by (simp add: ComputeIndex_legal)
  note d = radix_split(1-5)[OF ab(1,2,3,4) of_bool_range of_bool_range of_bool_range,
      of "pencilMoved0 s" "pencilMoved1 s" "rule60active s", folded i]
  show ?thesis
    unfolding state_at_def d of_bool_eq_1 by simp
qed

lemma legal_state_at: "legal (state_at i)"
  by (simp add: legal_def state_at_def)

lemma ComputeIndex_state_at:
  assumes "0 \<le> i" "i < 2048"
  shows "ComputeIndex (state_at i) = Some i"
proof -
  have "ComputeIndex (state_at i) =
      Some (((((i div 1024 mod 2) * 2 + i div 512 mod 2) * 16 + i div 32 mod 16) * 16
           + i div 2 mod 16) * 2 + i mod 2)"
    unfolding ComputeIndex_legal[OF legal_state_at]
    by (simp only: state_at_def State.simps of_bool_mod2)
  then show ?thesis
    by (simp only: radix_compose[OF assms])
qed

text \<open>
  C2. On the states with both pencils on maze points, \<open>ComputeIndex\<close> returns an index,
  and it is a bijection onto the integers from 0 up to, not including, \<open>TotalStates\<close>,
  which is 2048; so the inverse function takes the index of each such state back to
  the state.
\<close>

theorem ComputeIndex_bijection:
  "TotalStates = 2048 \<and>
   (\<forall>s. legal s \<longrightarrow> (\<exists>i. ComputeIndex s = Some i)) \<and>
   bij_betw (\<lambda>s. the (ComputeIndex s)) {s. legal s} {0 ..< TotalStates} \<and>
   (\<forall>s. legal s \<longrightarrow>
      the_inv_into {s. legal s} (\<lambda>s. the (ComputeIndex s)) (the (ComputeIndex s)) = s)"
proof -
  have tot: "TotalStates = 2048" by (simp add: TotalStates_def)
  have some: "\<exists>i. ComputeIndex s = Some i" if "legal s" for s
    using that by (simp add: ComputeIndex_legal)
  have bij: "bij_betw (\<lambda>s. the (ComputeIndex s)) {s. legal s} {0 ..< TotalStates}"
  proof (rule bij_betw_byWitness[where f' = state_at])
    show "\<forall>s\<in>{s. legal s}. state_at (the (ComputeIndex s)) = s"
      using some state_at_ComputeIndex by fastforce
    show "\<forall>i\<in>{0 ..< TotalStates}. the (ComputeIndex (state_at i)) = i"
      by (simp add: tot ComputeIndex_state_at)
    show "(\<lambda>s. the (ComputeIndex s)) ` {s. legal s} \<subseteq> {0 ..< TotalStates}"
      using some ComputeIndex_range by fastforce
    show "state_at ` {0 ..< TotalStates} \<subseteq> {s. legal s}"
      by (simp add: image_subset_iff legal_state_at)
  qed
  have inv: "the_inv_into {s. legal s} (\<lambda>s. the (ComputeIndex s)) (the (ComputeIndex s)) = s"
    if "legal s" for s
  proof (rule the_inv_into_f_f)
    show "inj_on (\<lambda>s. the (ComputeIndex s)) {s. legal s}"
      using bij by (rule bij_betw_imp_inj_on)
    show "s \<in> {s. legal s}" using that by simp
  qed
  from tot some bij inv show ?thesis by blast
qed

theorem ComputeIndex_bijection_witness:
  "legal \<lparr>pencil0 = 0, pencil1 = 3, rule60active = False, pencilMoved0 = False, pencilMoved1 = False\<rparr>
   \<and> ComputeIndex \<lparr>pencil0 = 0, pencil1 = 3, rule60active = False, pencilMoved0 = False, pencilMoved1 = False\<rparr> = Some 6
   \<and> the_inv_into {s. legal s} (\<lambda>s. the (ComputeIndex s)) 6
       = \<lparr>pencil0 = 0, pencil1 = 3, rule60active = False, pencilMoved0 = False, pencilMoved1 = False\<rparr>"
proof -
  let ?s = "\<lparr>pencil0 = 0, pencil1 = 3, rule60active = False, pencilMoved0 = False, pencilMoved1 = False\<rparr>"
  have l: "legal ?s" by (simp add: legal_def)
  have c: "ComputeIndex ?s = Some 6" by (simp add: ComputeIndex_legal[OF l])
  from ComputeIndex_bijection l
  have "the_inv_into {s. legal s} (\<lambda>s. the (ComputeIndex s)) (the (ComputeIndex ?s)) = ?s"
    by blast
  with l c show ?thesis by simp
qed

section \<open>The rules of the boxes\<close>

lemmas rule_defs = CurrentState_def SetMovement_def IllegalP_def GoalP_def Pencil_def
  pencil_at_def MAZEPOINT_def exit_to_def SetPencil_def GetMazePointIndex_def
  SetNextState_def SetAltNextState_def Rule60P_def SetRule60_def MovementP_def GetYesPath_def
  HasBoxRedTextOrGreenTextP_def HasBoxGreenTextOrGreenWordP_def HasBoxRedWordOrGreenWordP_def
  HasBoxOddNumberP_def HasBoxWordWordP_def HasBoxMultipleOfFiveNumberP_def
  DoesBoxReferToCowsP_def HasBoxIfSentenceP_def NextState_def AltNextState_def
  AltNextValidP_def Let_def DetermineNextStates.simps

text \<open>Every proof about all boxes is by cases on where the two pencils are: 16 by 16
  places, for each of the two pencils chosen; the three flags stay symbolic.\<close>

lemma legal_state_cases:
  assumes "legal c"
  obtains a b r m0 m1 where
    "c = \<lparr>pencil0 = a, pencil1 = b, rule60active = r, pencilMoved0 = m0, pencilMoved1 = m1\<rparr>"
    "0 \<le> a" "a < 16" "0 \<le> b" "b < 16"
  using assms by (cases c) (auto simp: legal_def)

lemma DNS_frame:
  assumes "legal (current trs)" "p = 0 \<or> p = 1"
  shows "case DetermineNextStates p trs of
           None \<Rightarrow> False
         | Some (t', path) \<Rightarrow>
             current t' = current trs \<and> visited t' = visited trs \<and>
             NextState t' (1 - p) = NextState trs (1 - p) \<and>
             AltNextState t' (1 - p) = AltNextState trs (1 - p) \<and>
             AltNextValidP t' (1 - p) = AltNextValidP trs (1 - p) \<and>
             (if Pencil (current trs) p = Some 55
              then AltNextValidP t' p = Some True \<and> path = PATH_LUGNUT
              else AltNextValidP t' p = AltNextValidP trs p \<and>
                   AltNextState t' p = AltNextState trs p \<and> path \<noteq> PATH_LUGNUT)"
proof -
  from assms(1) obtain a b r m0 m1 where
    c: "current trs = \<lparr>pencil0 = a, pencil1 = b, rule60active = r, pencilMoved0 = m0, pencilMoved1 = m1\<rparr>"
    and a: "0 \<le> a" "a < 16" and b: "0 \<le> b" "b < 16"
    by (rule legal_state_cases)
  show ?thesis
    using int16_cases[OF a] int16_cases[OF b] assms(2)
    by (elim disjE) (simp_all add: c rule_defs)
qed

text \<open>The primary successor: the flags, the box of each pencil, and the deadly embrace.\<close>

lemma DNS_next:
  assumes "legal (current trs)" "p = 0 \<or> p = 1"
  shows "case DetermineNextStates p trs of
           None \<Rightarrow> False
         | Some (t', path) \<Rightarrow>
            (case (NextState t' p, Pencil (current trs) p, Pencil (current trs) (1 - p)) of
               (Some n, Some box, Some other) \<Rightarrow>
                 Rule60P n = (if box = 60 then True else if box = 65 then False
                              else Rule60P (current trs)) \<and>
                 MovementP n p = Some (path \<noteq> PATH_NONE) \<and>
                 MovementP n (1 - p) = Some (box = 61 \<and> \<not> Rule60P (current trs)) \<and>
                 (path = PATH_NONE) = (box = 26 \<and> other = 26 \<and> \<not> Rule60P (current trs)) \<and>
                 (if path = PATH_NONE
                  then Pencil n 0 = Some ILLEGAL_MAZEPOINT \<and> Pencil n 1 = Some ILLEGAL_MAZEPOINT \<and>
                       IllegalP n
                  else \<not> IllegalP n \<and>
                       (if box = 61 \<and> \<not> Rule60P (current trs)
                        then Pencil n p = Some 1 \<and> Pencil n (1 - p) = GetYesPath other \<and>
                             GetYesPath other \<noteq> None
                        else Pencil n (1 - p) = Some other)) \<and>
                 (box = 61 \<longrightarrow> Pencil n p = Some 1) \<and>
                 (box = 55 \<longrightarrow> Pencil n p = Some 15) \<and>
                 (IllegalP n \<or> GoalP n \<or> legal n) \<and>
                 (clear_of_deadlock (current trs) \<longrightarrow>
                    \<not> IllegalP n \<and> (\<not> GoalP n \<longrightarrow> clear_of_deadlock n))
             | _ \<Rightarrow> False)"
proof -
  from assms(1) obtain a b r m0 m1 where
    c: "current trs = \<lparr>pencil0 = a, pencil1 = b, rule60active = r, pencilMoved0 = m0, pencilMoved1 = m1\<rparr>"
    and a: "0 \<le> a" "a < 16" and b: "0 \<le> b" "b < 16"
    by (rule legal_state_cases)
  show ?thesis
    using int16_cases[OF a] int16_cases[OF b] assms(2)
    by (elim disjE) (simp_all add: c rule_defs legal_def clear_of_deadlock_def)
qed

lemma DNS_next_facts:
  assumes "legal (current trs)" "p = 0 \<or> p = 1"
    and "DetermineNextStates p trs = Some (t', path)" "NextState t' p = Some n"
    and "Pencil (current trs) p = Some box" "Pencil (current trs) (1 - p) = Some other"
  shows "Rule60P n = (if box = 60 then True else if box = 65 then False
                      else Rule60P (current trs))"
    and "MovementP n p = Some (path \<noteq> PATH_NONE)"
    and "MovementP n (1 - p) = Some (box = 61 \<and> \<not> Rule60P (current trs))"
    and "(path = PATH_NONE) = (box = 26 \<and> other = 26 \<and> \<not> Rule60P (current trs))"
    and "path = PATH_NONE \<Longrightarrow>
           Pencil n 0 = Some ILLEGAL_MAZEPOINT \<and> Pencil n 1 = Some ILLEGAL_MAZEPOINT \<and>
           IllegalP n"
    and "path \<noteq> PATH_NONE \<Longrightarrow> \<not> IllegalP n"
    and "path \<noteq> PATH_NONE \<Longrightarrow> box = 61 \<Longrightarrow> \<not> Rule60P (current trs) \<Longrightarrow>
           Pencil n (1 - p) = GetYesPath other \<and> GetYesPath other \<noteq> None"
    and "path \<noteq> PATH_NONE \<Longrightarrow> \<not> (box = 61 \<and> \<not> Rule60P (current trs)) \<Longrightarrow>
           Pencil n (1 - p) = Some other"
    and "box = 61 \<Longrightarrow> Pencil n p = Some 1"
    and "box = 55 \<Longrightarrow> Pencil n p = Some 15"
    and "IllegalP n \<or> GoalP n \<or> legal n"
    and "clear_of_deadlock (current trs) \<Longrightarrow> \<not> IllegalP n"
    and "clear_of_deadlock (current trs) \<Longrightarrow> \<not> GoalP n \<Longrightarrow> clear_of_deadlock n"
proof -
  from DNS_next[OF assms(1,2)] assms(3-)
  have *: "Rule60P n = (if box = 60 then True else if box = 65 then False
                              else Rule60P (current trs)) \<and>
                 MovementP n p = Some (path \<noteq> PATH_NONE) \<and>
                 MovementP n (1 - p) = Some (box = 61 \<and> \<not> Rule60P (current trs)) \<and>
                 (path = PATH_NONE) = (box = 26 \<and> other = 26 \<and> \<not> Rule60P (current trs)) \<and>
                 (if path = PATH_NONE
                  then Pencil n 0 = Some ILLEGAL_MAZEPOINT \<and> Pencil n 1 = Some ILLEGAL_MAZEPOINT \<and>
                       IllegalP n
                  else \<not> IllegalP n \<and>
                       (if box = 61 \<and> \<not> Rule60P (current trs)
                        then Pencil n p = Some 1 \<and> Pencil n (1 - p) = GetYesPath other \<and>
                             GetYesPath other \<noteq> None
                        else Pencil n (1 - p) = Some other)) \<and>
                 (box = 61 \<longrightarrow> Pencil n p = Some 1) \<and>
                 (box = 55 \<longrightarrow> Pencil n p = Some 15) \<and>
                 (IllegalP n \<or> GoalP n \<or> legal n) \<and>
                 (clear_of_deadlock (current trs) \<longrightarrow>
                    \<not> IllegalP n \<and> (\<not> GoalP n \<longrightarrow> clear_of_deadlock n))"
    by simp
  show "Rule60P n = (if box = 60 then True else if box = 65 then False
                      else Rule60P (current trs))" using * by blast
  show "MovementP n p = Some (path \<noteq> PATH_NONE)" using * by blast
  show "MovementP n (1 - p) = Some (box = 61 \<and> \<not> Rule60P (current trs))" using * by blast
  show "(path = PATH_NONE) = (box = 26 \<and> other = 26 \<and> \<not> Rule60P (current trs))"
    using * by blast
  show "path = PATH_NONE \<Longrightarrow>
           Pencil n 0 = Some ILLEGAL_MAZEPOINT \<and> Pencil n 1 = Some ILLEGAL_MAZEPOINT \<and>
           IllegalP n"
    using * by presburger
  show "path \<noteq> PATH_NONE \<Longrightarrow> \<not> IllegalP n" using * by presburger
  show "path \<noteq> PATH_NONE \<Longrightarrow> box = 61 \<Longrightarrow> \<not> Rule60P (current trs) \<Longrightarrow>
           Pencil n (1 - p) = GetYesPath other \<and> GetYesPath other \<noteq> None"
    using * by presburger
  show "path \<noteq> PATH_NONE \<Longrightarrow> \<not> (box = 61 \<and> \<not> Rule60P (current trs)) \<Longrightarrow>
           Pencil n (1 - p) = Some other"
    using * by presburger
  show "box = 61 \<Longrightarrow> Pencil n p = Some 1" using * by blast
  show "box = 55 \<Longrightarrow> Pencil n p = Some 15" using * by blast
  show "IllegalP n \<or> GoalP n \<or> legal n" using * by blast
  show "clear_of_deadlock (current trs) \<Longrightarrow> \<not> IllegalP n" using * by blast
  show "clear_of_deadlock (current trs) \<Longrightarrow> \<not> GoalP n \<Longrightarrow> clear_of_deadlock n"
    using * by blast
qed

text \<open>The alternate successor of box 55.\<close>

lemma DNS_alt:
  assumes "legal (current trs)" "p = 0 \<or> p = 1" "Pencil (current trs) p = Some 55"
  shows "case DetermineNextStates p trs of
           None \<Rightarrow> False
         | Some (t', path) \<Rightarrow>
            (case (NextState t' p, AltNextState t' p) of
               (Some n, Some alt) \<Rightarrow>
                 SetPencil n p 7 = Some alt \<and> Pencil alt p = Some 7 \<and>
                 Pencil alt (1 - p) = Pencil n (1 - p) \<and>
                 Rule60P alt = Rule60P n \<and>
                 MovementP alt p = Some True \<and> MovementP alt (1 - p) = Some False \<and>
                 legal alt \<and>
                 (clear_of_deadlock (current trs) \<longrightarrow> clear_of_deadlock alt)
             | _ \<Rightarrow> False)"
proof -
  from assms(1) obtain a b r m0 m1 where
    c: "current trs = \<lparr>pencil0 = a, pencil1 = b, rule60active = r, pencilMoved0 = m0, pencilMoved1 = m1\<rparr>"
    and a: "0 \<le> a" "a < 16" and b: "0 \<le> b" "b < 16"
    by (rule legal_state_cases)
  show ?thesis
    using int16_cases[OF a] int16_cases[OF b] assms(2,3)
    by (elim disjE) (simp_all add: c rule_defs legal_def clear_of_deadlock_def)
qed

lemma DNS_frame_facts:
  assumes "legal (current trs)" "p = 0 \<or> p = 1"
    and "DetermineNextStates p trs = Some (t', path)"
  shows "current t' = current trs" and "visited t' = visited trs"
    and "NextState t' (1 - p) = NextState trs (1 - p)"
    and "AltNextState t' (1 - p) = AltNextState trs (1 - p)"
    and "AltNextValidP t' (1 - p) = AltNextValidP trs (1 - p)"
    and "Pencil (current trs) p = Some 55 \<Longrightarrow> AltNextValidP t' p = Some True \<and> path = PATH_LUGNUT"
    and "Pencil (current trs) p \<noteq> Some 55 \<Longrightarrow>
           AltNextValidP t' p = AltNextValidP trs p \<and> AltNextState t' p = AltNextState trs p \<and>
           path \<noteq> PATH_LUGNUT"
  using DNS_frame[OF assms(1,2)] assms(3) by simp_all

lemma DNS_alt_facts:
  assumes "legal (current trs)" "p = 0 \<or> p = 1" "Pencil (current trs) p = Some 55"
    and "DetermineNextStates p trs = Some (t', path)"
    and "NextState t' p = Some n" "AltNextState t' p = Some alt"
  shows "SetPencil n p 7 = Some alt" and "Pencil alt p = Some 7"
    and "Pencil alt (1 - p) = Pencil n (1 - p)" and "Rule60P alt = Rule60P n"
    and "MovementP alt p = Some True" and "MovementP alt (1 - p) = Some False"
    and "legal alt"
    and "clear_of_deadlock (current trs) \<Longrightarrow> clear_of_deadlock alt"
  using DNS_alt[OF assms(1,2,3)] assms(4-) by simp_all

lemma DNS_total:
  assumes "legal (current trs)" "p = 0 \<or> p = 1"
  shows "\<exists>t' path. DetermineNextStates p trs = Some (t', path)"
  using DNS_frame[OF assms] by (auto split: option.splits)

lemma NextState_total: "p = 0 \<or> p = 1 \<Longrightarrow> \<exists>n. NextState t p = Some n"
  by (auto simp: NextState_def)

lemma AltNextState_total: "p = 0 \<or> p = 1 \<Longrightarrow> \<exists>n. AltNextState t p = Some n"
  by (auto simp: AltNextState_def)

lemma Pencil_Some_box:
  assumes "Pencil c p = Some box" "box \<noteq> ILLEGAL_MAZEPOINT" "box \<noteq> GOAL_MAZEPOINT"
  shows "0 \<le> pencil_at c p \<and> pencil_at c p < 16 \<and> (p = 0 \<or> p = 1)"
  using assms by (auto simp: Pencil_def split: if_splits)

lemma Pencil_total:
  assumes "legal c" "p = 0 \<or> p = 1"
  shows "\<exists>b. Pencil c p = Some b"
  using assms by (auto simp: Pencil_legal)

lemma other_pencil: "p = 0 \<or> p = 1 \<Longrightarrow> 1 - p = 0 \<or> 1 - p = (1::int)"
  by auto

text \<open>
  C4, as the code has it. When both pencils are on box 26 and the rule of box 60 is
  off, applying the rule of either pencil takes no path (\<open>PATH_NONE\<close>) and puts both
  pencils of the successor state on \<open>ILLEGAL_MAZEPOINT\<close>.
\<close>

theorem deadly_embrace:
  assumes "Pencil (CurrentState trs) 0 = Some 26" "Pencil (CurrentState trs) 1 = Some 26"
    and "\<not> Rule60P (CurrentState trs)" and "p = 0 \<or> p = 1"
  shows "\<exists>t' n. DetermineNextStates p trs = Some (t', PATH_NONE) \<and> NextState t' p = Some n \<and>
           Pencil n 0 = Some ILLEGAL_MAZEPOINT \<and> Pencil n 1 = Some ILLEGAL_MAZEPOINT \<and>
           IllegalP n"
proof -
  from Pencil_Some_box[OF assms(1)] Pencil_Some_box[OF assms(2)]
  have l: "legal (current trs)"
    by (simp add: legal_def pencil_at_def CurrentState_def)
  from DNS_total[OF l assms(4)] obtain t' path where d: "DetermineNextStates p trs = Some (t', path)"
    by blast
  from NextState_total[OF assms(4)] obtain n where n: "NextState t' p = Some n" by blast
  from assms have b: "Pencil (current trs) p = Some 26" "Pencil (current trs) (1 - p) = Some 26"
    by (auto simp: CurrentState_def)
  from assms(3) have r: "\<not> Rule60P (current trs)" by (simp add: CurrentState_def)
  from DNS_next_facts(4)[OF l assms(4) d n b] r have path: "path = PATH_NONE" by simp
  from DNS_next_facts(5)[OF l assms(4) d n b path]
  have i: "Pencil n 0 = Some ILLEGAL_MAZEPOINT" "Pencil n 1 = Some ILLEGAL_MAZEPOINT" "IllegalP n"
    by simp_all
  with d n path show ?thesis by blast
qed

theorem deadly_embrace_witness:
  "\<exists>t' n. DetermineNextStates 1 (SetCurrentState Transition_new
       \<lparr>pencil0 = 7, pencil1 = 7, rule60active = False, pencilMoved0 = True, pencilMoved1 = False\<rparr>)
         = Some (t', PATH_NONE) \<and> NextState t' 1 = Some n \<and>
       Pencil n 0 = Some ILLEGAL_MAZEPOINT \<and> Pencil n 1 = Some ILLEGAL_MAZEPOINT \<and> IllegalP n"
  by (rule deadly_embrace)
     (simp_all add: SetCurrentState_def CurrentState_def Pencil_def pencil_at_def MAZEPOINT_def
       Rule60P_def)

text \<open>
  C4 as stated fails when the rule of box 60 is on: with both pencils on box 26, pencil 0
  leaves on the path marked Yes to box 61, and no pencil is put on \<open>ILLEGAL_MAZEPOINT\<close>.
\<close>

theorem deadly_embrace_rule60_counterexample:
  "Pencil \<lparr>pencil0 = 7, pencil1 = 7, rule60active = True, pencilMoved0 = False, pencilMoved1 = False\<rparr> 0
     = Some 26 \<and>
   Pencil \<lparr>pencil0 = 7, pencil1 = 7, rule60active = True, pencilMoved0 = False, pencilMoved1 = False\<rparr> 1
     = Some 26 \<and>
   DetermineNextStates 0 (SetCurrentState Transition_new
       \<lparr>pencil0 = 7, pencil1 = 7, rule60active = True, pencilMoved0 = False, pencilMoved1 = False\<rparr>)
     = Some (Transition_new
         \<lparr>current := \<lparr>pencil0 = 7, pencil1 = 7, rule60active = True,
                        pencilMoved0 = False, pencilMoved1 = False\<rparr>,
          next0 := \<lparr>pencil0 = 13, pencil1 = 7, rule60active = True,
                      pencilMoved0 = True, pencilMoved1 = False\<rparr>\<rparr>, PATH_YES) \<and>
   Pencil \<lparr>pencil0 = 13, pencil1 = 7, rule60active = True, pencilMoved0 = True, pencilMoved1 = False\<rparr> 0
     = Some 61 \<and>
   \<not> IllegalP \<lparr>pencil0 = 13, pencil1 = 7, rule60active = True, pencilMoved0 = True, pencilMoved1 = False\<rparr>"
  by (simp add: rule_defs SetCurrentState_def)

text \<open>
  C5. In a state with both pencils on maze points and the chosen pencil on box 55, the
  rule records two successors: the primary one with the chosen pencil on box 15, and
  the alternate one, flagged valid, which is the primary one with the chosen pencil put
  on box 7 instead; the path is \<open>PATH_LUGNUT\<close>. On any other box, the call leaves the
  flags and the alternate states of the transition as they were, for both pencils, and
  the path is not \<open>PATH_LUGNUT\<close>.
\<close>

theorem free_choice_only_at_55:
  assumes "legal (CurrentState trs)" and "p = 0 \<or> p = 1"
  shows "(Pencil (CurrentState trs) p = Some 55 \<longrightarrow>
            (\<exists>t' n alt. DetermineNextStates p trs = Some (t', PATH_LUGNUT) \<and>
               NextState t' p = Some n \<and> Pencil n p = Some 15 \<and>
               AltNextValidP t' p = Some True \<and> AltNextState t' p = Some alt \<and>
               Pencil alt p = Some 7 \<and> SetPencil n p 7 = Some alt)) \<and>
         (Pencil (CurrentState trs) p \<noteq> Some 55 \<longrightarrow>
            (\<exists>t' path. DetermineNextStates p trs = Some (t', path) \<and> path \<noteq> PATH_LUGNUT \<and>
               AltNextValidP t' 0 = AltNextValidP trs 0 \<and>
               AltNextValidP t' 1 = AltNextValidP trs 1 \<and>
               AltNextState t' 0 = AltNextState trs 0 \<and>
               AltNextState t' 1 = AltNextState trs 1))"
proof (intro conjI impI)
  assume b: "Pencil (CurrentState trs) p = Some 55"
  from assms(1) have l: "legal (current trs)" by (simp add: CurrentState_def)
  from b have b': "Pencil (current trs) p = Some 55" by (simp add: CurrentState_def)
  from DNS_total[OF l assms(2)] obtain t' path where d: "DetermineNextStates p trs = Some (t', path)"
    by blast
  from NextState_total[OF assms(2)] obtain n where n: "NextState t' p = Some n" by blast
  from assms(2) obtain alt where a: "AltNextState t' p = Some alt"
    by (auto simp: AltNextState_def)
  from DNS_frame_facts(6)[OF l assms(2) d b']
  have f: "AltNextValidP t' p = Some True" "path = PATH_LUGNUT"
    by simp_all
  from DNS_alt_facts(1,2)[OF l assms(2) b' d n a]
  have 1: "SetPencil n p 7 = Some alt" "Pencil alt p = Some 7" by simp_all
  from Pencil_total[OF l other_pencil[OF assms(2)]] obtain other
    where o: "Pencil (current trs) (1 - p) = Some other" by blast
  from DNS_next_facts(10)[OF l assms(2) d n b' o]
  have 2: "Pencil n p = Some 15" by simp
  from d n a f 1 2
  show "\<exists>t' n alt. DetermineNextStates p trs = Some (t', PATH_LUGNUT) \<and>
               NextState t' p = Some n \<and> Pencil n p = Some 15 \<and>
               AltNextValidP t' p = Some True \<and> AltNextState t' p = Some alt \<and>
               Pencil alt p = Some 7 \<and> SetPencil n p 7 = Some alt"
    by blast
next
  assume b: "Pencil (CurrentState trs) p \<noteq> Some 55"
  from assms(1) have l: "legal (current trs)" by (simp add: CurrentState_def)
  from b have b': "Pencil (current trs) p \<noteq> Some 55" by (simp add: CurrentState_def)
  from DNS_total[OF l assms(2)] obtain t' path where d: "DetermineNextStates p trs = Some (t', path)"
    by blast
  from DNS_frame_facts(3-5,7)[OF l assms(2) d] b' assms(2)
  have "path \<noteq> PATH_LUGNUT \<and>
               AltNextValidP t' 0 = AltNextValidP trs 0 \<and>
               AltNextValidP t' 1 = AltNextValidP trs 1 \<and>
               AltNextState t' 0 = AltNextState trs 0 \<and>
               AltNextState t' 1 = AltNextState trs 1"
    by auto
  with d show "\<exists>t' path. DetermineNextStates p trs = Some (t', path) \<and> path \<noteq> PATH_LUGNUT \<and>
               AltNextValidP t' 0 = AltNextValidP trs 0 \<and>
               AltNextValidP t' 1 = AltNextValidP trs 1 \<and>
               AltNextState t' 0 = AltNextState trs 0 \<and>
               AltNextState t' 1 = AltNextState trs 1"
    by blast
qed

theorem free_choice_only_at_55_witness:
  "legal (CurrentState (SetCurrentState Transition_new
      \<lparr>pencil0 = 11, pencil1 = 7, rule60active = False, pencilMoved0 = True, pencilMoved1 = False\<rparr>)) \<and>
   Pencil \<lparr>pencil0 = 11, pencil1 = 7, rule60active = False, pencilMoved0 = True, pencilMoved1 = False\<rparr> 0
      = Some 55 \<and>
   (\<exists>t' n alt. DetermineNextStates 0 (SetCurrentState Transition_new
      \<lparr>pencil0 = 11, pencil1 = 7, rule60active = False, pencilMoved0 = True, pencilMoved1 = False\<rparr>)
        = Some (t', PATH_LUGNUT) \<and>
      NextState t' 0 = Some n \<and> Pencil n 0 = Some 15 \<and>
      AltNextValidP t' 0 = Some True \<and> AltNextState t' 0 = Some alt \<and>
      Pencil alt 0 = Some 7 \<and> SetPencil n 0 7 = Some alt) \<and>
   (\<exists>t' path. DetermineNextStates 1 (SetCurrentState Transition_new
      \<lparr>pencil0 = 11, pencil1 = 7, rule60active = False, pencilMoved0 = True, pencilMoved1 = False\<rparr>)
        = Some (t', path) \<and> path \<noteq> PATH_LUGNUT \<and>
      AltNextValidP t' 0 = Some False \<and> AltNextValidP t' 1 = Some False)"
proof -
  let ?c = "\<lparr>pencil0 = 11, pencil1 = 7, rule60active = False, pencilMoved0 = True, pencilMoved1 = False\<rparr>"
  let ?t = "SetCurrentState Transition_new ?c"
  have l: "legal (CurrentState ?t)"
    by (simp add: legal_def CurrentState_def SetCurrentState_def)
  have b0: "Pencil (CurrentState ?t) 0 = Some 55" and b1: "Pencil (CurrentState ?t) 1 \<noteq> Some 55"
    by (simp_all add: CurrentState_def SetCurrentState_def Pencil_def pencil_at_def MAZEPOINT_def)
  have v: "AltNextValidP ?t 0 = Some False" "AltNextValidP ?t 1 = Some False"
    by (simp_all add: AltNextValidP_def SetCurrentState_def Transition_new_def)
  from free_choice_only_at_55[OF l, of 0] b0
  have 1: "\<exists>t' n alt. DetermineNextStates 0 ?t = Some (t', PATH_LUGNUT) \<and>
      NextState t' 0 = Some n \<and> Pencil n 0 = Some 15 \<and>
      AltNextValidP t' 0 = Some True \<and> AltNextState t' 0 = Some alt \<and>
      Pencil alt 0 = Some 7 \<and> SetPencil n 0 7 = Some alt"
    by simp
  from free_choice_only_at_55[OF l, of 1] b1 v
  have 2: "\<exists>t' path. DetermineNextStates 1 ?t = Some (t', path) \<and> path \<noteq> PATH_LUGNUT \<and>
      AltNextValidP t' 0 = Some False \<and> AltNextValidP t' 1 = Some False"
    by auto
  from l b0 1 2 show ?thesis
    by (simp add: CurrentState_def SetCurrentState_def)
qed


text \<open>
  C6. In a state with both pencils on maze points and the chosen pencil on box 61, the
  successor has the chosen pencil on box 1, marked as moved. When the rule of box 60 is
  off, the other pencil is put on the target that the literal table of the claim gives
  for its box, and is marked as moved too; when the rule is on, the other pencil stays
  where it is and is not marked as moved.
\<close>

theorem box_61_moves_other_pencil:
  assumes "legal (CurrentState trs)" and "p = 0 \<or> p = 1"
    and "Pencil (CurrentState trs) p = Some 61"
  shows "\<exists>t' n other. DetermineNextStates p trs = Some (t', PATH_YES) \<and>
           NextState t' p = Some n \<and>
           Pencil n p = Some 1 \<and> MovementP n p = Some True \<and>
           Pencil (CurrentState trs) (1 - p) = Some other \<and>
           (if Rule60P (CurrentState trs)
            then Pencil n (1 - p) = Some other \<and> MovementP n (1 - p) = Some False
            else Pencil n (1 - p) =
                   map_of [(1, 2), (2, 7), (5, 25), (7, 26), (9, 2), (15, 5), (25, 7), (26, 61),
                           (35, 40), (40, 65), (50, GOAL_MAZEPOINT), (55, 15), (60, 25), (61, 1),
                           (65, 75), (75, 1)] other \<and>
                 Pencil n (1 - p) \<noteq> None \<and> MovementP n (1 - p) = Some True)"
proof -
  from assms(1) have l: "legal (current trs)" by (simp add: CurrentState_def)
  from assms(3) have b: "Pencil (current trs) p = Some 61" by (simp add: CurrentState_def)
  from DNS_total[OF l assms(2)] obtain t' path where d: "DetermineNextStates p trs = Some (t', path)"
    by blast
  from NextState_total[OF assms(2)] obtain n where n: "NextState t' p = Some n" by blast
  from Pencil_total[OF l other_pencil[OF assms(2)]] obtain other
    where o: "Pencil (current trs) (1 - p) = Some other" by blast
  note f = DNS_next_facts[OF l assms(2) d n b o]
  from f(4) have np: "path \<noteq> PATH_NONE" by simp
  from DNS_frame_facts(7)[OF l assms(2) d] b have nl: "path \<noteq> PATH_LUGNUT" by simp
  have nn: "path \<noteq> PATH_NO"
  proof -
    from l obtain a b r m0 m1 where
      c: "current trs = \<lparr>pencil0 = a, pencil1 = b, rule60active = r, pencilMoved0 = m0, pencilMoved1 = m1\<rparr>"
      and a: "0 \<le> a" "a < 16" and b': "0 \<le> b" "b < 16"
      by (rule legal_state_cases)
    show ?thesis
      using int16_cases[OF a] int16_cases[OF b'] assms(2) d b
      by (elim disjE) (simp_all add: c rule_defs split: if_splits)
  qed
  from np nl nn have path: "path = PATH_YES" by (cases path) simp_all
  define tbl :: "int \<Rightarrow> int option" where
    "tbl = map_of [(1, 2), (2, 7), (5, 25), (7, 26), (9, 2), (15, 5), (25, 7), (26, 61),
              (35, 40), (40, 65), (50, GOAL_MAZEPOINT), (55, 15), (60, 25), (61, 1),
              (65, 75), (75, 1)]"
  have table: "GetYesPath x = tbl x" for x
    by (simp add: GetYesPath_def tbl_def)
  have 1: "Pencil n p = Some 1" using f(9) by simp
  have 2: "MovementP n p = Some True" using f(2) np by simp
  have 3: "if Rule60P (CurrentState trs)
           then Pencil n (1 - p) = Some other \<and> MovementP n (1 - p) = Some False
           else Pencil n (1 - p) = tbl other \<and> Pencil n (1 - p) \<noteq> None \<and>
                MovementP n (1 - p) = Some True"
  proof (cases "Rule60P (current trs)")
    case True
    with f(3) f(8)[OF np] show ?thesis by (simp add: CurrentState_def)
  next
    case False
    with f(3) f(7)[OF np] table[of other] show ?thesis by (simp add: CurrentState_def)
  qed
  from o have o': "Pencil (CurrentState trs) (1 - p) = Some other" by (simp add: CurrentState_def)
  from d path have d': "DetermineNextStates p trs = Some (t', PATH_YES)" by simp
  show ?thesis
    apply (fold tbl_def)
    using d' n 1 2 o' 3 by blast
qed

theorem box_61_moves_other_pencil_witness:
  "legal (CurrentState (SetCurrentState Transition_new
      \<lparr>pencil0 = 10, pencil1 = 13, rule60active = False, pencilMoved0 = False, pencilMoved1 = True\<rparr>)) \<and>
   Pencil \<lparr>pencil0 = 10, pencil1 = 13, rule60active = False, pencilMoved0 = False, pencilMoved1 = True\<rparr> 1
      = Some 61 \<and>
   (\<exists>t' n. DetermineNextStates 1 (SetCurrentState Transition_new
      \<lparr>pencil0 = 10, pencil1 = 13, rule60active = False, pencilMoved0 = False, pencilMoved1 = True\<rparr>)
        = Some (t', PATH_YES) \<and>
      NextState t' 1 = Some n \<and> Pencil n 1 = Some 1 \<and> MovementP n 1 = Some True \<and>
      Pencil n 0 = Some GOAL_MAZEPOINT \<and> MovementP n 0 = Some True)"
proof -
  let ?c = "\<lparr>pencil0 = 10, pencil1 = 13, rule60active = False, pencilMoved0 = False, pencilMoved1 = True\<rparr>"
  let ?t = "SetCurrentState Transition_new ?c"
  have l: "legal (CurrentState ?t)"
    by (simp add: legal_def CurrentState_def SetCurrentState_def)
  have b: "Pencil (CurrentState ?t) 1 = Some 61" "Pencil (CurrentState ?t) 0 = Some 50"
    "\<not> Rule60P (CurrentState ?t)"
    by (simp_all add: CurrentState_def SetCurrentState_def Pencil_def pencil_at_def MAZEPOINT_def
        Rule60P_def)
  from box_61_moves_other_pencil[OF l _ b(1)] b(2,3)
  have "\<exists>t' n. DetermineNextStates 1 ?t = Some (t', PATH_YES) \<and>
      NextState t' 1 = Some n \<and> Pencil n 1 = Some 1 \<and> MovementP n 1 = Some True \<and>
      Pencil n 0 = Some GOAL_MAZEPOINT \<and> MovementP n 0 = Some True"
    by auto
  with l b(1) show ?thesis
    by (simp add: CurrentState_def SetCurrentState_def)
qed

text \<open>
  C10, as the code has it. In a state with both pencils on maze points, the successor
  that a rule records has the movement flag of the chosen pencil set, except in the
  deadly embrace (\<open>PATH_NONE\<close>: both pencils on box 26, rule of box 60 off), where both
  flags are left false; the flag of the other pencil is set exactly when the chosen
  pencil is on box 61 and the rule of box 60 is off. The alternate successor of box 55
  has the flag of the chosen pencil set and the other one not.
\<close>

theorem movement_flags:
  assumes "legal (CurrentState trs)" and "p = 0 \<or> p = 1"
  shows "\<exists>t' path n box other.
           DetermineNextStates p trs = Some (t', path) \<and> NextState t' p = Some n \<and>
           Pencil (CurrentState trs) p = Some box \<and>
           Pencil (CurrentState trs) (1 - p) = Some other \<and>
           (path = PATH_NONE) = (box = 26 \<and> other = 26 \<and> \<not> Rule60P (CurrentState trs)) \<and>
           MovementP n p = Some (path \<noteq> PATH_NONE) \<and>
           MovementP n (1 - p) = Some (box = 61 \<and> \<not> Rule60P (CurrentState trs)) \<and>
           (box = 55 \<longrightarrow>
              (\<exists>alt. AltNextState t' p = Some alt \<and> AltNextValidP t' p = Some True \<and>
                 MovementP alt p = Some True \<and> MovementP alt (1 - p) = Some False))"
proof -
  from assms(1) have l: "legal (current trs)" by (simp add: CurrentState_def)
  from DNS_total[OF l assms(2)] obtain t' path where d: "DetermineNextStates p trs = Some (t', path)"
    by blast
  from NextState_total[OF assms(2)] obtain n where n: "NextState t' p = Some n" by blast
  from AltNextState_total[OF assms(2)] obtain alt where a: "AltNextState t' p = Some alt" by blast
  from Pencil_total[OF l assms(2)] obtain box
    where b: "Pencil (current trs) p = Some box" by blast
  from Pencil_total[OF l other_pencil[OF assms(2)]] obtain other
    where o: "Pencil (current trs) (1 - p) = Some other" by blast
  note f = DNS_next_facts(2-4)[OF l assms(2) d n b o]
  have "box = 55 \<longrightarrow> AltNextValidP t' p = Some True \<and>
                 MovementP alt p = Some True \<and> MovementP alt (1 - p) = Some False"
    using DNS_alt_facts(5,6)[OF l assms(2) _ d n a] DNS_frame_facts(6)[OF l assms(2) d] b
    by simp
  with d n a b o f show ?thesis
    by (simp add: CurrentState_def)
qed

theorem movement_flags_witness:
  "\<exists>t' path n. DetermineNextStates 0 (SetCurrentState Transition_new
      \<lparr>pencil0 = 13, pencil1 = 3, rule60active = False, pencilMoved0 = False, pencilMoved1 = True\<rparr>)
        = Some (t', path) \<and> path \<noteq> PATH_NONE \<and>
      NextState t' 0 = Some n \<and> MovementP n 0 = Some True \<and> MovementP n 1 = Some True"
proof -
  let ?c = "\<lparr>pencil0 = 13, pencil1 = 3, rule60active = False, pencilMoved0 = False, pencilMoved1 = True\<rparr>"
  let ?t = "SetCurrentState Transition_new ?c"
  have l: "legal (CurrentState ?t)"
    by (simp add: legal_def CurrentState_def SetCurrentState_def)
  have b: "Pencil (CurrentState ?t) 0 = Some 61" "Pencil (CurrentState ?t) 1 = Some 7"
    "\<not> Rule60P (CurrentState ?t)"
    by (simp_all add: CurrentState_def SetCurrentState_def Pencil_def pencil_at_def MAZEPOINT_def
        Rule60P_def)
  from movement_flags[OF l, of 0] b
  obtain t' path n where *: "DetermineNextStates 0 ?t = Some (t', path)" "NextState t' 0 = Some n"
    "path \<noteq> PATH_NONE" "MovementP n 0 = Some (path \<noteq> PATH_NONE)" "MovementP n 1 = Some True"
    by auto
  then show ?thesis by auto
qed

text \<open>
  C10 as stated fails in the deadly embrace: with both pencils on box 26 and the rule of
  box 60 off, the successor recorded for pencil 0 has both movement flags false.
\<close>

theorem movement_flags_deadlock_counterexample:
  "DetermineNextStates 0 (SetCurrentState Transition_new
       \<lparr>pencil0 = 7, pencil1 = 7, rule60active = False, pencilMoved0 = True, pencilMoved1 = True\<rparr>)
     = Some (Transition_new
         \<lparr>current := \<lparr>pencil0 = 7, pencil1 = 7, rule60active = False,
                        pencilMoved0 = True, pencilMoved1 = True\<rparr>,
          next0 := \<lparr>pencil0 = ILLEGAL_MAZEPOINT, pencil1 = ILLEGAL_MAZEPOINT, rule60active = False,
                      pencilMoved0 = False, pencilMoved1 = False\<rparr>\<rparr>, PATH_NONE) \<and>
   MovementP \<lparr>pencil0 = ILLEGAL_MAZEPOINT, pencil1 = ILLEGAL_MAZEPOINT, rule60active = False,
                      pencilMoved0 = False, pencilMoved1 = False\<rparr> 0 = Some False"
  by (simp add: rule_defs SetCurrentState_def)

text \<open>The successors of a move, spelled out.\<close>

lemma successors_facts:
  assumes "legal c" "p = 0 \<or> p = 1" "c' \<in> set (successors c p)" "Pencil c p = Some box"
  shows "Rule60P c' = (if box = 60 then True else if box = 65 then False else Rule60P c)"
proof -
  let ?t = "SetCurrentState Transition_new c"
  have l: "legal (current ?t)" using assms(1) by (simp add: SetCurrentState_def)
  have b: "Pencil (current ?t) p = Some box" using assms(4) by (simp add: SetCurrentState_def)
  from DNS_total[OF l assms(2)] obtain t' path where d: "DetermineNextStates p ?t = Some (t', path)"
    by blast
  from NextState_total[OF assms(2)] obtain n where n: "NextState t' p = Some n" by blast
  from AltNextState_total[OF assms(2)] obtain alt where a: "AltNextState t' p = Some alt" by blast
  from Pencil_total[OF l other_pencil[OF assms(2)]] obtain other
    where o: "Pencil (current ?t) (1 - p) = Some other" by blast
  have fresh: "AltNextValidP ?t p = Some False"
    using assms(2) by (auto simp: AltNextValidP_def SetCurrentState_def Transition_new_def)
  have rn: "Rule60P n = (if box = 60 then True else if box = 65 then False else Rule60P c)"
    using DNS_next_facts(1)[OF l assms(2) d n b o] by (simp add: SetCurrentState_def)
  show ?thesis
  proof (cases "box = 55")
    case True
    from DNS_alt_facts(4)[OF l assms(2) _ d n a] b True have "Rule60P alt = Rule60P n" by simp
    moreover from assms(3) d n a have "c' = n \<or> c' = alt"
      by (auto simp: successors_def branches_def split: option.splits bool.splits)
    ultimately show ?thesis using rn by auto
  next
    case False
    with DNS_frame_facts(7)[OF l assms(2) d] b fresh have "AltNextValidP t' p = Some False"
      by simp
    with assms(3) d n have "c' = n" by (simp add: successors_def branches_def)
    with rn show ?thesis by simp
  qed
qed

lemma moves_mode:
  assumes "moves c boxes c'"
  shows "(65 \<notin> set boxes \<longrightarrow> Rule60P c \<longrightarrow> Rule60P c') \<and>
         (\<forall>before after. boxes = before @ 60 # after \<longrightarrow> 65 \<notin> set after \<longrightarrow> Rule60P c') \<and>
         (\<forall>before. boxes = before @ [65] \<longrightarrow> \<not> Rule60P c')"
  using assms
proof (induction rule: moves.induct)
  case (moves_none c)
  show ?case by simp
next
  case (moves_step c p box c' boxes c'')
  note r = successors_facts[OF moves_step.hyps(1,2,4,3)]
  have 1: "65 \<notin> set (box # boxes) \<longrightarrow> Rule60P c \<longrightarrow> Rule60P c''"
    using r moves_step.IH by simp
  have 2: "Rule60P c''" if "box # boxes = before @ 60 # after" "65 \<notin> set after" for before after
  proof (cases before)
    case Nil
    with that have "box = 60" "boxes = after" by simp_all
    with r that(2) moves_step.IH show ?thesis by simp
  next
    case (Cons x xs)
    with that have "boxes = xs @ 60 # after" by simp
    with that(2) moves_step.IH show ?thesis by blast
  qed
  have 3: "\<not> Rule60P c''" if "box # boxes = before @ [65]" for before
  proof (cases before)
    case Nil
    with that have "box = 65" "boxes = []" by simp_all
    with r moves_step.hyps(5) show ?thesis by (auto elim: moves.cases)
  next
    case (Cons x xs)
    with that have "boxes = xs @ [65]" by simp
    with moves_step.IH show ?thesis by blast
  qed
  from 1 2 3 show ?case by blast
qed

text \<open>
  C7. The state that a rule records as a successor (primary, or the alternate of box 55)
  has the mode flag of the state it came from, except that box 60 sets it and box 65
  clears it. So along a sequence of moves: a flag that is set stays set while no rule of
  box 65 is applied; after a rule of box 60 it is set until the next rule of box 65; and
  right after a rule of box 65 it is clear. A set flag is cleared by one move only if
  the move is by the rule of box 65.
\<close>

theorem mode_flag_persists:
  "(\<forall>trs p t' path c'.
      legal (CurrentState trs) \<and> (p = 0 \<or> p = 1) \<and>
      DetermineNextStates p trs = Some (t', path) \<and>
      (NextState t' p = Some c' \<or>
       Pencil (CurrentState trs) p = Some 55 \<and> AltNextState t' p = Some c') \<longrightarrow>
      Rule60P c' = (if Pencil (CurrentState trs) p = Some 60 then True
                    else if Pencil (CurrentState trs) p = Some 65 then False
                    else Rule60P (CurrentState trs))) \<and>
   (\<forall>c boxes c'. moves c boxes c' \<longrightarrow>
      (65 \<notin> set boxes \<longrightarrow> Rule60P c \<longrightarrow> Rule60P c') \<and>
      (\<forall>before after. boxes = before @ 60 # after \<longrightarrow> 65 \<notin> set after \<longrightarrow> Rule60P c') \<and>
      (\<forall>before. boxes = before @ [65] \<longrightarrow> \<not> Rule60P c'))"
proof -
  have step: "Rule60P c' = (if Pencil (CurrentState trs) p = Some 60 then True
                    else if Pencil (CurrentState trs) p = Some 65 then False
                    else Rule60P (CurrentState trs))"
    if h: "legal (CurrentState trs) \<and> (p = 0 \<or> p = 1) \<and>
      DetermineNextStates p trs = Some (t', path) \<and>
      (NextState t' p = Some c' \<or>
       Pencil (CurrentState trs) p = Some 55 \<and> AltNextState t' p = Some c')"
    for trs p t' path c'
  proof -
    from h have l: "legal (current trs)" and p: "p = 0 \<or> p = 1"
      and d: "DetermineNextStates p trs = Some (t', path)"
      by (simp_all add: CurrentState_def)
    from NextState_total[OF p] obtain n where n: "NextState t' p = Some n" by blast
    from Pencil_total[OF l p] obtain box where b: "Pencil (current trs) p = Some box" by blast
    from Pencil_total[OF l other_pencil[OF p]] obtain other
      where o: "Pencil (current trs) (1 - p) = Some other" by blast
    have rn: "Rule60P n = (if box = 60 then True else if box = 65 then False
        else Rule60P (current trs))"
      using DNS_next_facts(1)[OF l p d n b o] .
    from h n consider "c' = n" | "box = 55" "AltNextState t' p = Some c'"
      using b by (auto simp: CurrentState_def)
    then have "Rule60P c' = (if box = 60 then True else if box = 65 then False
        else Rule60P (current trs))"
    proof cases
      case 1
      with rn show ?thesis by simp
    next
      case 2
      from DNS_alt_facts(4)[OF l p _ d n 2(2)] b 2(1) have "Rule60P c' = Rule60P n" by simp
      with rn show ?thesis by simp
    qed
    with b show ?thesis
      by (simp add: CurrentState_def)
  qed
  show ?thesis
  proof (rule conjI)
    show "\<forall>trs p t' path c'.
      legal (CurrentState trs) \<and> (p = 0 \<or> p = 1) \<and>
      DetermineNextStates p trs = Some (t', path) \<and>
      (NextState t' p = Some c' \<or>
       Pencil (CurrentState trs) p = Some 55 \<and> AltNextState t' p = Some c') \<longrightarrow>
      Rule60P c' = (if Pencil (CurrentState trs) p = Some 60 then True
                    else if Pencil (CurrentState trs) p = Some 65 then False
                    else Rule60P (CurrentState trs))"
      by (intro allI impI) (rule step)
    show "\<forall>c boxes c'. moves c boxes c' \<longrightarrow>
      (65 \<notin> set boxes \<longrightarrow> Rule60P c \<longrightarrow> Rule60P c') \<and>
      (\<forall>before after. boxes = before @ 60 # after \<longrightarrow> 65 \<notin> set after \<longrightarrow> Rule60P c') \<and>
      (\<forall>before. boxes = before @ [65] \<longrightarrow> \<not> Rule60P c')"
      by (intro allI impI) (rule moves_mode)
  qed
qed

text \<open>A witness: from boxes 60 and 1 with the flag clear, pencil 0 moves by the rule of
  box 60 to box 25, then by the rule of box 25 to box 7; the flag is set after that.\<close>

theorem mode_flag_persists_witness:
  "moves \<lparr>pencil0 = 12, pencil1 = 0, rule60active = False, pencilMoved0 = True, pencilMoved1 = False\<rparr>
     [60, 25]
     \<lparr>pencil0 = 3, pencil1 = 0, rule60active = True, pencilMoved0 = True, pencilMoved1 = False\<rparr> \<and>
   Rule60P \<lparr>pencil0 = 3, pencil1 = 0, rule60active = True, pencilMoved0 = True, pencilMoved1 = False\<rparr>"
proof -
  let ?c0 = "\<lparr>pencil0 = 12, pencil1 = 0, rule60active = False, pencilMoved0 = True, pencilMoved1 = False\<rparr>"
  let ?c1 = "\<lparr>pencil0 = 6, pencil1 = 0, rule60active = True, pencilMoved0 = True, pencilMoved1 = False\<rparr>"
  let ?c2 = "\<lparr>pencil0 = 3, pencil1 = 0, rule60active = True, pencilMoved0 = True, pencilMoved1 = False\<rparr>"
  have s0: "?c1 \<in> set (successors ?c0 0)"
    by (simp add: successors_def branches_def SetCurrentState_def Transition_new_def rule_defs)
  have s1: "?c2 \<in> set (successors ?c1 0)"
    by (simp add: successors_def branches_def SetCurrentState_def Transition_new_def rule_defs)
  have m: "moves ?c0 [60, 25] ?c2"
    by (rule moves_step[where p = 0 and c' = ?c1], simp add: legal_def, simp,
        simp add: Pencil_def pencil_at_def MAZEPOINT_def, rule s0,
        rule moves_step[where p = 0 and c' = ?c2], simp add: legal_def, simp,
        simp add: Pencil_def pencil_at_def MAZEPOINT_def, rule s1, rule moves_none)
  from mode_flag_persists[THEN conjunct2, rule_format, OF m]
  have "\<forall>before after. [60, 25 :: int] = before @ 60 # after \<longrightarrow> 65 \<notin> set after \<longrightarrow> Rule60P ?c2"
    by (rule conjunct2[THEN conjunct1])
  from this[rule_format, of "[]" "[25]"] have "Rule60P ?c2" by simp
  with m show ?thesis by simp
qed

section \<open>The array built by the enumeration\<close>

lemma SetPencil_MAZEPOINT:
  assumes "0 \<le> a" "a < 16"
  shows "SetPencil s 0 (MAZEPOINT ! nat a) = Some (s\<lparr>pencil0 := a\<rparr>)"
    and "SetPencil s 1 (MAZEPOINT ! nat a) = Some (s\<lparr>pencil1 := a\<rparr>)"
  using int16_cases[OF assms]
  by (elim disjE; simp add: SetPencil_def GetMazePointIndex_def MAZEPOINT_def)+

lemma transition_of_total:
  assumes "legal c"
  shows "\<exists>t. transition_of c = Some t"
proof -
  let ?t = "SetCurrentState Transition_new c"
  have l: "legal (current ?t)" using assms by (simp add: SetCurrentState_def)
  from DNS_total[OF l, of 0] obtain t0 path0 where d0: "DetermineNextStates 0 ?t = Some (t0, path0)"
    by auto
  from DNS_frame_facts(1)[OF l _ d0] l have l0: "legal (current t0)" by simp
  from DNS_total[OF l0, of 1] obtain t1 path1 where d1: "DetermineNextStates 1 t0 = Some (t1, path1)"
    by auto
  from d0 d1 show ?thesis by (simp add: transition_of_def)
qed

lemma ComputeIndex_inj:
  assumes "legal c" "legal c'" "ComputeIndex c = Some i" "ComputeIndex c' = Some i"
  shows "c = c'"
  using state_at_ComputeIndex[OF assms(1,3)] state_at_ComputeIndex[OF assms(2,4)] by simp

lemma table_uptoD:
  assumes "table_upto S sp" "legal c" "ComputeIndex c = Some i"
  shows "sp ! nat i = (if c \<in> S then the (transition_of c) else Transition_new)"
proof -
  from assms(1) have "\<forall>c. legal c \<longrightarrow> sp ! nat (the (ComputeIndex c)) =
      (if c \<in> S then the (transition_of c) else Transition_new)"
    by (simp add: table_upto_def)
  from this[rule_format, OF assms(2)] assms(3) show ?thesis by simp
qed

lemma enumerate_block_step:
  assumes t: "table_upto S sp" and a: "0 \<le> a" "a < 16" and b: "0 \<le> b" "b < 16"
    and c: "c = \<lparr>pencil0 = a, pencil1 = b, rule60active = r, pencilMoved0 = m0, pencilMoved1 = m1\<rparr>"
    and new: "c \<notin> S"
  shows "\<exists>sp'. enumerate_block m0 m1 a b r sp = Some sp' \<and> table_upto (insert c S) sp'"
proof -
  have l: "legal c" using a b by (simp add: c legal_def)
  from ComputeIndex_legal[OF l] obtain i where i: "ComputeIndex c = Some i" by blast
  from ComputeIndex_range[OF l i] have ir: "0 \<le> i" "i < 2048" by (simp_all add: TotalStates_def)
  from t have len: "length sp = 2048" by (simp add: table_upto_def)
  from table_uptoD[OF t l i] new have fresh: "sp ! nat i = Transition_new" by simp
  let ?t = "SetCurrentState Transition_new c"
  have lt: "legal (current ?t)" using l by (simp add: SetCurrentState_def)
  from DNS_total[OF lt, of 0] obtain t0 path0
    where d0: "DetermineNextStates 0 ?t = Some (t0, path0)" by auto
  from DNS_frame_facts(1)[OF lt _ d0] lt have l0: "legal (current t0)" by simp
  from DNS_total[OF l0, of 1] obtain t1 path1
    where d1: "DetermineNextStates 1 t0 = Some (t1, path1)" by auto
  from d0 d1 have t1: "transition_of c = Some t1" by (simp add: transition_of_def)
  have built: "(State_new\<lparr>pencil0 := a, pencil1 := b, rule60active := r,
      pencilMoved0 := m0, pencilMoved1 := m1\<rparr>) = c"
    by (simp add: c State_new_def)
  have run: "enumerate_block m0 m1 a b r sp = Some (sp[nat i := t1])"
    using ir
    by (simp add: enumerate_block_def SetPencil_MAZEPOINT[OF a] SetPencil_MAZEPOINT[OF b]
        SetRule60_def SetMovement_def built i TotalStates_def len fresh d0 d1)
  have "table_upto (insert c S) (sp[nat i := t1])"
    unfolding table_upto_def
  proof (intro conjI allI impI)
    show "length (sp[nat i := t1]) = 2048" using len by simp
  next
    fix c' assume l': "legal c'"
    from ComputeIndex_legal[OF l'] obtain i' where i': "ComputeIndex c' = Some i'" by blast
    from ComputeIndex_range[OF l' i'] have ir': "0 \<le> i'" "i' < 2048"
      by (simp_all add: TotalStates_def)
    show "sp[nat i := t1] ! nat (the (ComputeIndex c')) =
        (if c' \<in> insert c S then the (transition_of c') else Transition_new)"
    proof (cases "c' = c")
      case True
      with i t1 ir len show ?thesis by simp
    next
      case False
      with ComputeIndex_inj[OF l' l i'] i have "i' \<noteq> i" by auto
      with ir ir' have "nat i' \<noteq> nat i" by simp
      with table_uptoD[OF t l' i'] i' False show ?thesis by simp
    qed
  qed
  with run show ?thesis by blast
qed

lemma enumerates_for_each:
  assumes "\<And>x. x \<in> set xs \<Longrightarrow> enumerates (f x) (X x)"
    and "distinct xs"
    and "\<And>x y. x \<in> set xs \<Longrightarrow> y \<in> set xs \<Longrightarrow> x \<noteq> y \<Longrightarrow> X x \<inter> X y = {}"
  shows "enumerates (for_each xs f) (\<Union>x\<in>set xs. X x)"
  using assms
proof (induction xs)
  case Nil
  show ?case by (simp add: enumerates_def)
next
  case (Cons x xs)
  have rest: "enumerates (for_each xs f) (\<Union>x\<in>set xs. X x)"
    using Cons by simp
  have first: "enumerates (f x) (X x)" using Cons.prems(1) by simp
  have disj: "X x \<inter> (\<Union>y\<in>set xs. X y) = {}"
    using Cons.prems(2,3) by fastforce
  show ?case
    unfolding enumerates_def
  proof (intro allI impI, elim conjE)
    fix S sp
    assume t: "table_upto S sp" and d: "S \<inter> (\<Union>y\<in>set (x # xs). X y) = {}"
    from d have d1: "S \<inter> X x = {}" by auto
    from first t d1 obtain sp1 where 1: "f x sp = Some sp1" "table_upto (S \<union> X x) sp1"
      unfolding enumerates_def by blast
    from d disj have d2: "(S \<union> X x) \<inter> (\<Union>y\<in>set xs. X y) = {}" by auto
    from rest 1(2) d2 obtain sp2 where 2: "for_each xs f sp1 = Some sp2"
      "table_upto (S \<union> X x \<union> (\<Union>y\<in>set xs. X y)) sp2"
      unfolding enumerates_def by blast
    have "S \<union> X x \<union> (\<Union>y\<in>set xs. X y) = S \<union> (\<Union>y\<in>set (x # xs). X y)" by auto
    with 1 2 show "\<exists>sp'. for_each (x # xs) f sp = Some sp' \<and>
        table_upto (S \<union> (\<Union>y\<in>set (x # xs). X y)) sp'"
      by simp
  qed
qed

lemma bool_list: "set [True, False] = UNIV" "distinct [True, False]"
  by auto

lemma enumerates_block:
  assumes "0 \<le> a" "a < 16" "0 \<le> b" "b < 16"
  shows "enumerates (enumerate_block m0 m1 a b r)
     {\<lparr>pencil0 = a, pencil1 = b, rule60active = r, pencilMoved0 = m0, pencilMoved1 = m1\<rparr>}"
  unfolding enumerates_def
  using enumerate_block_step[OF _ assms refl] by auto

lemma enumerates_R60:
  assumes "0 \<le> a" "a < 16" "0 \<le> b" "b < 16"
  shows "enumerates (for_each [True, False] (\<lambda>curR60. enumerate_block m0 m1 a b curR60))
     {c. pencilMoved0 c = m0 \<and> pencilMoved1 c = m1 \<and> pencil0 c = a \<and> pencil1 c = b}"
proof -
  have "enumerates (for_each [True, False] (\<lambda>curR60. enumerate_block m0 m1 a b curR60))
     (\<Union>r\<in>set [True, False].
        {\<lparr>pencil0 = a, pencil1 = b, rule60active = r, pencilMoved0 = m0, pencilMoved1 = m1\<rparr>})"
    by (rule enumerates_for_each) (auto intro: enumerates_block[OF assms])
  moreover have "(\<Union>r\<in>set [True, False].
        {\<lparr>pencil0 = a, pencil1 = b, rule60active = r, pencilMoved0 = m0, pencilMoved1 = m1\<rparr>})
      = {c. pencilMoved0 c = m0 \<and> pencilMoved1 c = m1 \<and> pencil0 c = a \<and> pencil1 c = b}"
    (is "?L = ?R")
  proof (rule set_eqI)
    fix c :: State
    show "c \<in> ?L \<longleftrightarrow> c \<in> ?R" by (cases c) auto
  qed
  ultimately show ?thesis by (rule back_subst[where P = "enumerates _"])
qed

lemma set_upt_int: "int ` set [0 ..< 16] = {a. 0 \<le> a \<and> a < 16}"
proof (rule set_eqI)
  fix a :: int
  show "a \<in> int ` set [0 ..< 16] \<longleftrightarrow> a \<in> {a. 0 \<le> a \<and> a < 16}"
  proof
    assume "a \<in> int ` set [0 ..< 16]" then show "a \<in> {a. 0 \<le> a \<and> a < 16}" by auto
  next
    assume "a \<in> {a. 0 \<le> a \<and> a < 16}"
    then have "a = int (nat a)" "nat a \<in> set [0 ..< 16]" by auto
    then show "a \<in> int ` set [0 ..< 16]" by blast
  qed
qed

lemma enumerates_P1:
  assumes "0 \<le> a" "a < 16"
  shows "enumerates (for_each [0 ..< 16] (\<lambda>curP1.
            for_each [True, False] (\<lambda>curR60. enumerate_block m0 m1 a (int curP1) curR60)))
     {c. pencilMoved0 c = m0 \<and> pencilMoved1 c = m1 \<and> pencil0 c = a \<and>
         0 \<le> pencil1 c \<and> pencil1 c < 16}"
proof -
  have "enumerates (for_each [0 ..< 16] (\<lambda>curP1.
            for_each [True, False] (\<lambda>curR60. enumerate_block m0 m1 a (int curP1) curR60)))
     (\<Union>b\<in>set [0 ..< 16].
        {c. pencilMoved0 c = m0 \<and> pencilMoved1 c = m1 \<and> pencil0 c = a \<and> pencil1 c = int b})"
    by (rule enumerates_for_each) (auto intro: enumerates_R60[OF assms])
  moreover have "(\<Union>b\<in>set [0 ..< 16].
        {c. pencilMoved0 c = m0 \<and> pencilMoved1 c = m1 \<and> pencil0 c = a \<and> pencil1 c = int b})
      = {c. pencilMoved0 c = m0 \<and> pencilMoved1 c = m1 \<and> pencil0 c = a \<and>
         0 \<le> pencil1 c \<and> pencil1 c < 16}"
    using set_upt_int by auto
  ultimately show ?thesis by (rule back_subst[where P = "enumerates _"])
qed

lemma enumerates_P0:
  "enumerates (for_each [0 ..< 16] (\<lambda>curP0. for_each [0 ..< 16] (\<lambda>curP1.
            for_each [True, False] (\<lambda>curR60.
              enumerate_block m0 m1 (int curP0) (int curP1) curR60))))
     {c. pencilMoved0 c = m0 \<and> pencilMoved1 c = m1 \<and> legal c}"
proof -
  have "enumerates (for_each [0 ..< 16] (\<lambda>curP0. for_each [0 ..< 16] (\<lambda>curP1.
            for_each [True, False] (\<lambda>curR60.
              enumerate_block m0 m1 (int curP0) (int curP1) curR60))))
     (\<Union>a\<in>set [0 ..< 16].
        {c. pencilMoved0 c = m0 \<and> pencilMoved1 c = m1 \<and> pencil0 c = int a \<and>
         0 \<le> pencil1 c \<and> pencil1 c < 16})"
    by (rule enumerates_for_each) (auto intro: enumerates_P1)
  moreover have "(\<Union>a\<in>set [0 ..< 16].
        {c. pencilMoved0 c = m0 \<and> pencilMoved1 c = m1 \<and> pencil0 c = int a \<and>
         0 \<le> pencil1 c \<and> pencil1 c < 16})
      = {c. pencilMoved0 c = m0 \<and> pencilMoved1 c = m1 \<and> legal c}"
    using set_upt_int by (auto simp: legal_def)
  ultimately show ?thesis by (rule back_subst[where P = "enumerates _"])
qed

lemma enumerates_mv1:
  "enumerates (for_each [True, False] (\<lambda>pencil1mv.
       for_each [0 ..< 16] (\<lambda>curP0. for_each [0 ..< 16] (\<lambda>curP1.
            for_each [True, False] (\<lambda>curR60.
              enumerate_block m0 pencil1mv (int curP0) (int curP1) curR60)))))
     {c. pencilMoved0 c = m0 \<and> legal c}"
proof -
  have "enumerates (for_each [True, False] (\<lambda>pencil1mv.
       for_each [0 ..< 16] (\<lambda>curP0. for_each [0 ..< 16] (\<lambda>curP1.
            for_each [True, False] (\<lambda>curR60.
              enumerate_block m0 pencil1mv (int curP0) (int curP1) curR60)))))
     (\<Union>m1\<in>set [True, False]. {c. pencilMoved0 c = m0 \<and> pencilMoved1 c = m1 \<and> legal c})"
    by (rule enumerates_for_each) (auto intro: enumerates_P0)
  moreover have "(\<Union>m1\<in>set [True, False].
       {c. pencilMoved0 c = m0 \<and> pencilMoved1 c = m1 \<and> legal c})
     = {c. pencilMoved0 c = m0 \<and> legal c}"
    by auto
  ultimately show ?thesis by (rule back_subst[where P = "enumerates _"])
qed

lemma enumerates_all: "enumerates EnumerateTransitions {c. legal c}"
proof -
  have "enumerates EnumerateTransitions
     (\<Union>m0\<in>set [True, False]. {c. pencilMoved0 c = m0 \<and> legal c})"
    unfolding EnumerateTransitions_def
    by (rule enumerates_for_each) (auto intro: enumerates_mv1)
  moreover have "(\<Union>m0\<in>set [True, False]. {c. pencilMoved0 c = m0 \<and> legal c}) = {c. legal c}"
    by auto
  ultimately show ?thesis by (rule back_subst[where P = "enumerates _"])
qed

text \<open>The constructor returns an array of 2048 transitions; the entry at the index of
  each state is the transition of that state.\<close>

lemma Searcher_new_table:
  "\<exists>sp. Searcher_new = Some sp \<and> length sp = 2048 \<and>
     (\<forall>i. 0 \<le> i \<and> i < 2048 \<longrightarrow> sp ! nat i = the (transition_of (state_at i)))"
proof -
  have "table_upto {} (replicate (nat TotalStates) Transition_new)"
    unfolding table_upto_def
  proof (intro conjI allI impI)
    show "length (replicate (nat TotalStates) Transition_new) = 2048"
      by (simp add: TotalStates_def)
  next
    fix c assume l: "legal c"
    from ComputeIndex_legal[OF l] obtain i where i: "ComputeIndex c = Some i" by blast
    from ComputeIndex_range[OF l i] have "0 \<le> i" "i < 2048" by (simp_all add: TotalStates_def)
    then show "replicate (nat TotalStates) Transition_new ! nat (the (ComputeIndex c)) =
        (if c \<in> {} then the (transition_of c) else Transition_new)"
      by (simp add: i TotalStates_def)
  qed
  with enumerates_all obtain sp where sp: "Searcher_new = Some sp" "table_upto {c. legal c} sp"
    unfolding enumerates_def Searcher_new_def by fastforce
  have "sp ! nat i = the (transition_of (state_at i))" if "0 \<le> i \<and> i < 2048" for i
    using table_uptoD[OF sp(2) legal_state_at[of i] ComputeIndex_state_at[of i]] that
      legal_state_at[of i]
    by simp
  with sp show ?thesis by (auto simp: table_upto_def)
qed

section \<open>The traversal: what a call may change\<close>

lemma try_state_cases:
  assumes "try_state rec nxt depth s = Inr (ret, s')"
  obtains
    (illegal) "IllegalP nxt" "ret" "s' = s\<lparr>out := out s @ [IllegalStateEncountered]\<rparr>"
  | (goal) "\<not> IllegalP nxt" "GoalP nxt" "ret"
      "s' = s\<lparr>out := out s @ GoalStateEncountered depth # DumpStackTrace (stackTrace s) depth\<rparr>"
  | (descend) j where "\<not> IllegalP nxt" "\<not> GoalP nxt" "\<not> ret" "ComputeIndex nxt = Some j"
      "rec j (depth + 1) s = Inr s'"
  using assms
  by (auto simp: try_state_def split: if_splits option.splits sum.splits)

lemma try_states_Cons_cases:
  assumes "try_states rec (x # xs) depth s = Inr (ret, s')"
  obtains
    (stop) "try_state rec x depth s = Inr (True, s')" "ret"
  | (go) s1 where "try_state rec x depth s = Inr (False, s1)"
      "try_states rec xs depth s1 = Inr (ret, s')"
  using assms
  by (auto split: sum.splits bool.splits)

lemma same_rules_refl: "same_rules t t"
  by (simp add: same_rules_def)

lemma same_rules_trans: "same_rules t t' \<Longrightarrow> same_rules t' t'' \<Longrightarrow> same_rules t t''"
  by (cases t; cases t'; cases t'') (simp add: same_rules_def)

lemma same_rules_SetVisited: "same_rules t (SetVisited t d)"
  by (simp add: same_rules_def SetVisited_def)

lemma same_rules_fields:
  assumes "same_rules t t'"
  shows "current t' = current t" "next0 t' = next0 t" "next1 t' = next1 t"
    "altNext0 t' = altNext0 t" "altNext1 t' = altNext1 t"
    "altNextValid0 t' = altNextValid0 t" "altNextValid1 t' = altNextValid1 t"
  using assms by (cases t; cases t'; simp add: same_rules_def)+

lemma descends_refl: "descends d s s"
  by (simp add: descends_def same_rules_refl)

lemma descends_weaken:
  assumes "descends d' s s'" "d \<le> d'"
  shows "descends d s s'"
  unfolding descends_def
proof (intro conjI allI impI)
  fix i assume "i < length (space s)"
  with assms show "same_rules (space s ! i) (space s' ! i)" by (simp add: descends_def)
  from assms \<open>i < length (space s)\<close>
  have "visited (space s' ! i) = visited (space s ! i) \<or>
       d' \<le> visited (space s' ! i) \<and>
       (visited (space s ! i) \<le> 0 \<or> visited (space s' ! i) < visited (space s ! i))"
    by (simp add: descends_def)
  with assms(2) show "visited (space s' ! i) = visited (space s ! i) \<or>
       d \<le> visited (space s' ! i) \<and>
       (visited (space s ! i) \<le> 0 \<or> visited (space s' ! i) < visited (space s ! i))"
    by linarith
qed (use assms in \<open>simp_all add: descends_def\<close>)

lemma descends_trans:
  assumes 1: "descends d s s'" and 2: "descends d s' s''" and d: "1 \<le> d"
  shows "descends d s s''"
  unfolding descends_def
proof (intro conjI allI impI)
  show "length (space s'') = length (space s)" using 1 2 by (simp add: descends_def)
  show "length (stackTrace s'') = length (stackTrace s)" using 1 2 by (simp add: descends_def)
  show "maxDepth s \<le> maxDepth s''" using 1 2 by (simp add: descends_def)
next
  fix i assume i: "i < length (space s)"
  with 1 have a: "same_rules (space s ! i) (space s' ! i)"
    "visited (space s' ! i) = visited (space s ! i) \<or>
       d \<le> visited (space s' ! i) \<and>
       (visited (space s ! i) \<le> 0 \<or> visited (space s' ! i) < visited (space s ! i))"
    by (simp_all add: descends_def)
  from 1 i have "i < length (space s')" by (simp add: descends_def)
  with 2 have b: "same_rules (space s' ! i) (space s'' ! i)"
    "visited (space s'' ! i) = visited (space s' ! i) \<or>
       d \<le> visited (space s'' ! i) \<and>
       (visited (space s' ! i) \<le> 0 \<or> visited (space s'' ! i) < visited (space s' ! i))"
    by (simp_all add: descends_def)
  show "same_rules (space s ! i) (space s'' ! i)" using a(1) b(1) by (rule same_rules_trans)
  show "visited (space s'' ! i) = visited (space s ! i) \<or>
       d \<le> visited (space s'' ! i) \<and>
       (visited (space s ! i) \<le> 0 \<or> visited (space s'' ! i) < visited (space s ! i))"
    using a(2) b(2) d by linarith
next
  from 1 obtain ms1 where m1: "out s' = out s @ ms1"
    "ms1 \<noteq> [] \<longrightarrow> (\<exists>m\<in>set ms1. m = IllegalStateEncountered \<or> (\<exists>k. m = GoalStateEncountered k))"
    unfolding descends_def by blast
  from 2 obtain ms2 where m2: "out s'' = out s' @ ms2"
    "ms2 \<noteq> [] \<longrightarrow> (\<exists>m\<in>set ms2. m = IllegalStateEncountered \<or> (\<exists>k. m = GoalStateEncountered k))"
    unfolding descends_def by blast
  have "out s'' = out s @ (ms1 @ ms2)" using m1(1) m2(1) by simp
  moreover have "ms1 @ ms2 \<noteq> [] \<longrightarrow>
      (\<exists>m\<in>set (ms1 @ ms2). m = IllegalStateEncountered \<or> (\<exists>k. m = GoalStateEncountered k))"
    using m1(2) m2(2) by auto
  ultimately show "\<exists>ms. out s'' = out s @ ms \<and>
      (ms \<noteq> [] \<longrightarrow> (\<exists>m\<in>set ms. m = IllegalStateEncountered \<or> (\<exists>k. m = GoalStateEncountered k)))"
    by blast
qed

lemma descends_illegal: "descends d s (s\<lparr>out := out s @ [IllegalStateEncountered]\<rparr>)"
  by (simp add: descends_def same_rules_refl)

lemma descends_goal: "descends d s (s\<lparr>out := out s @ GoalStateEncountered k # ms\<rparr>)"
  by (auto simp: descends_def same_rules_refl)

lemma try_state_descends:
  assumes "well_behaved rec (depth + 1)"
    and "try_state rec nxt depth s = Inr (ret, s')"
  shows "descends (depth + 1) s s'"
  using assms(2)
proof (cases rule: try_state_cases)
  case illegal
  then show ?thesis by (simp add: descends_illegal)
next
  case goal
  then show ?thesis by (simp add: descends_goal)
next
  case (descend j)
  with assms(1) show ?thesis unfolding well_behaved_def by blast
qed

lemma try_states_descends:
  assumes "well_behaved rec (depth + 1)"
    and "0 \<le> depth"
    and "try_states rec xs depth s = Inr (ret, s')"
  shows "descends (depth + 1) s s'"
  using assms(3)
proof (induction xs arbitrary: s)
  case Nil
  then show ?case by (simp add: descends_refl)
next
  case (Cons x xs)
  from Cons.prems show ?case
  proof (cases rule: try_states_Cons_cases)
    case stop
    then show ?thesis using try_state_descends[OF assms(1)] by blast
  next
    case (go s1)
    from try_state_descends[OF assms(1) go(1)] Cons.IH[OF go(2)] assms(2)
    show ?thesis by (auto intro: descends_trans)
  qed
qed

text \<open>The loop over the pencils is the three-way test on the successor states of pencil
  0 and then of pencil 1, as long as the recursive calls change nothing but counters.\<close>

lemma branches_same_rules:
  assumes "same_rules t t'"
  shows "branches t' p = branches t p"
  using same_rules_fields[OF assms]
  by (simp add: branches_def NextState_def AltNextState_def AltNextValidP_def split: bool.splits)

lemma pencil_loop_try_states:
  assumes rec: "well_behaved rec (depth + 1)" and depth: "0 \<le> depth"
    and ps: "set ps \<subseteq> {0, 1}" and i: "nat index < length (space s)"
  shows "pencil_loop rec index depth ps s =
     map_sum (\<lambda>e. e) snd (try_states rec (concat (map (branches (space s ! nat index)) ps)) depth s)"
  using ps i
proof (induction ps arbitrary: s)
  case Nil
  show ?case by simp
next
  case (Cons p ps)
  let ?t = "space s ! nat index"
  from Cons.prems(1) have p: "p = 0 \<or> p = 1" and ps: "set ps \<subseteq> {0, 1}" by auto
  from p obtain n where n: "NextState ?t p = Some n" by (auto simp: NextState_def)
  from p obtain alt where a: "AltNextState ?t p = Some alt" by (auto simp: AltNextState_def)
  from p obtain v where v: "AltNextValidP ?t p = Some v" by (auto simp: AltNextValidP_def)
  have br: "branches ?t p = (if v then [n, alt] else [n])"
    using n a v by (simp add: branches_def)
  have same: "branches (space s1 ! nat index) q = branches ?t q \<and>
      AltNextValidP (space s1 ! nat index) q = AltNextValidP ?t q \<and>
      AltNextState (space s1 ! nat index) q = AltNextState ?t q \<and>
      nat index < length (space s1)"
    if "descends (depth + 1) s s1" for s1 q
  proof -
    from that Cons.prems(2) have sr: "same_rules ?t (space s1 ! nat index)"
      and len: "length (space s1) = length (space s)"
      by (simp_all add: descends_def)
    from same_rules_fields[OF sr] branches_same_rules[OF sr] len Cons.prems(2)
    show ?thesis by (simp add: AltNextValidP_def AltNextState_def)
  qed
  show ?case
  proof (cases "try_state rec n depth s")
    case (Inl e)
    then show ?thesis using n br by simp
  next
    case (Inr r)
    obtain ret s1 where r: "r = (ret, s1)" by (cases r)
    from try_state_descends[OF rec] Inr r have d1: "descends (depth + 1) s s1" by blast
    note k1 = same[OF d1]
    show ?thesis
    proof (cases ret)
      case True
      then show ?thesis using n br Inr r by simp
    next
      case False
      show ?thesis
      proof (cases v)
        case vF: False
        from Cons.IH[OF ps, of s1] k1
        have "pencil_loop rec index depth ps s1 =
            map_sum (\<lambda>e. e) snd (try_states rec (concat (map (branches ?t) ps)) depth s1)"
          by simp
        then show ?thesis using n v vF br Inr r False k1[of p] by simp
      next
        case vT: True
        show ?thesis
        proof (cases "try_state rec alt depth s1")
          case (Inl e)
          then show ?thesis using n v vT a br Inr r False k1[of p] by simp
        next
          case Inr2: (Inr r2)
          obtain ret2 s2 where r2: "r2 = (ret2, s2)" by (cases r2)
          from try_state_descends[OF rec] Inr2 r2 have "descends (depth + 1) s1 s2" by blast
          with d1 have d2: "descends (depth + 1) s s2"
            by (rule descends_trans) (use depth in simp)
          note k2 = same[OF d2]
          show ?thesis
          proof (cases ret2)
            case True
            then show ?thesis using n v vT a br Inr r False Inr2 r2 k1[of p] by simp
          next
            case F2: False
            from Cons.IH[OF ps, of s2] k2
            have "pencil_loop rec index depth ps s2 =
                map_sum (\<lambda>e. e) snd (try_states rec (concat (map (branches ?t) ps)) depth s2)"
              by simp
            then show ?thesis using n v vT a br Inr r False Inr2 r2 F2 k1[of p] by simp
          qed
        qed
      qed
    qed
  qed
qed


lemma descends_visited:
  assumes "descends d s s'" "i < length (space s)"
  shows "visited (space s' ! i) = visited (space s ! i) \<or>
         d \<le> visited (space s' ! i) \<and>
         (visited (space s ! i) \<le> 0 \<or> visited (space s' ! i) < visited (space s ! i))"
  using assms by (simp add: descends_def)

lemma descends_same_rules:
  assumes "descends d s s'" "i < length (space s)"
  shows "same_rules (space s ! i) (space s' ! i)"
  using assms by (simp add: descends_def)

lemma descends_length:
  assumes "descends d s s'"
  shows "length (space s') = length (space s)" "length (stackTrace s') = length (stackTrace s)"
  using assms by (simp_all add: descends_def)

lemma map_sum_snd_Inr:
  assumes "map_sum (\<lambda>e. e) snd x = Inr s'"
  shows "\<exists>ret. x = Inr (ret, s')"
  using assms by (cases x) auto

lemma RecTraverse_body_enter:
  "RecTraverse_body rec index depth s =
     (if index < 0 \<or> int (length (space s)) \<le> index then Inl OutOfBounds
      else if Visited (space s ! nat index) > 0 \<and> Visited (space s ! nat index) \<le> depth
        then Inr s
      else if depth \<le> TRACE_ENTRIES \<and> (depth - 1 < 0 \<or> int (length (stackTrace s)) \<le> depth - 1)
        then Inl OutOfBounds
      else pencil_loop rec index depth [0, 1] (enter index depth s))"
  by (simp add: RecTraverse_body_def enter_def Let_def)

lemma enter_facts:
  assumes "0 \<le> index" "index < int (length (space s))"
  shows "length (space (enter index depth s)) = length (space s)"
    and "length (stackTrace (enter index depth s)) = length (stackTrace s)"
    and "out (enter index depth s) = out s"
    and "maxDepth (enter index depth s) = max (maxDepth s) depth"
    and "space (enter index depth s) = (space s)[nat index := SetVisited (space s ! nat index) depth]"
    and "visited (space (enter index depth s) ! nat index) = depth"
  using assms by (simp_all add: enter_def Let_def SetVisited_def)

lemma enter_descends:
  assumes "0 \<le> index" "index < int (length (space s))"
    and "\<not> (Visited (space s ! nat index) > 0 \<and> Visited (space s ! nat index) \<le> depth)"
  shows "descends depth s (enter index depth s)"
  unfolding descends_def
proof (intro conjI allI impI)
  fix i assume "i < length (space s)"
  then show "same_rules (space s ! i) (space (enter index depth s) ! i)"
    using assms(1,2) by (cases "i = nat index")
      (simp_all add: enter_facts(5)[OF assms(1,2)] same_rules_refl same_rules_SetVisited)
  show "visited (space (enter index depth s) ! i) = visited (space s ! i) \<or>
       depth \<le> visited (space (enter index depth s) ! i) \<and>
       (visited (space s ! i) \<le> 0 \<or>
        visited (space (enter index depth s) ! i) < visited (space s ! i))"
    using assms \<open>i < length (space s)\<close>
    by (cases "i = nat index")
       (auto simp: enter_facts(5)[OF assms(1,2)] SetVisited_def Visited_def)
qed (simp_all add: enter_facts[OF assms(1,2)])

lemma well_behaved_body:
  assumes "well_behaved rec (depth + 1)" "1 \<le> depth"
  shows "well_behaved (RecTraverse_body rec) depth"
  unfolding well_behaved_def
proof (intro allI impI)
  fix index s s'
  assume r: "RecTraverse_body rec index depth s = Inr s'"
  then have i: "0 \<le> index" "index < int (length (space s))"
    by (auto simp: RecTraverse_body_enter simp del: pencil_loop.simps split: if_splits)
  show "descends depth s s'"
  proof (cases "Visited (space s ! nat index) > 0 \<and> Visited (space s ! nat index) \<le> depth")
    case True
    with r i have "s' = s" by (simp add: RecTraverse_body_enter del: pencil_loop.simps)
    then show ?thesis by (simp add: descends_refl)
  next
    case False
    with r i have l: "pencil_loop rec index depth [0, 1] (enter index depth s) = Inr s'"
      by (simp add: RecTraverse_body_enter del: pencil_loop.simps split: if_splits)
    have "nat index < length (space (enter index depth s))"
      using i by (simp add: enter_facts(1)[OF i])
    from pencil_loop_try_states[OF assms(1) _ _ this, of "[0, 1]"] l assms(2)
    have "map_sum (\<lambda>e. e) snd (try_states rec
        (concat (map (branches (space (enter index depth s) ! nat index)) [0, 1])) depth
        (enter index depth s)) = Inr s'"
      by (simp del: pencil_loop.simps)
    from map_sum_snd_Inr[OF this] obtain ret where tr: "try_states rec
        (concat (map (branches (space (enter index depth s) ! nat index)) [0, 1])) depth
        (enter index depth s) = Inr (ret, s')"
      by blast
    have "0 \<le> depth" using assms(2) by simp
    from try_states_descends[OF assms(1) this tr]
    have "descends (depth + 1) (enter index depth s) s'" .
    then have "descends depth (enter index depth s) s'"
      by (rule descends_weaken) simp
    with enter_descends[OF i False] show ?thesis
      using assms(2) by (rule descends_trans)
  qed
qed

lemma well_behaved_RecTraverse: "1 \<le> depth \<Longrightarrow> well_behaved (RecTraverse fuel) depth"
proof (induction fuel arbitrary: depth)
  case 0
  show ?case by (simp add: well_behaved_def)
next
  case (Suc fuel)
  from Suc.IH[of "depth + 1"] Suc.prems have "well_behaved (RecTraverse fuel) (depth + 1)"
    by simp
  from well_behaved_body[OF this Suc.prems] show ?case by simp
qed

lemma RecTraverse_descends:
  assumes "RecTraverse fuel index depth s = Inr s'" "1 \<le> depth"
  shows "descends depth s s'"
  using well_behaved_RecTraverse[OF assms(2), of fuel] assms(1)
  unfolding well_behaved_def by blast

lemma RecTraverse_Suc_cases:
  assumes "RecTraverse (Suc fuel) index depth s = Inr s'" "1 \<le> depth"
  obtains
    (pruned) "0 \<le> index" "nat index < length (space s)"
      "Visited (space s ! nat index) > 0" "Visited (space s ! nat index) \<le> depth" "s' = s"
  | (visit) ret where "0 \<le> index" "nat index < length (space s)"
      "\<not> (Visited (space s ! nat index) > 0 \<and> Visited (space s ! nat index) \<le> depth)"
      "try_states (RecTraverse fuel)
         (branches (space s ! nat index) 0 @ branches (space s ! nat index) 1) depth
         (enter index depth s) = Inr (ret, s')"
proof -
  from assms(1) have r: "RecTraverse_body (RecTraverse fuel) index depth s = Inr s'" by simp
  then have i: "0 \<le> index" "index < int (length (space s))"
    by (auto simp: RecTraverse_body_enter simp del: pencil_loop.simps split: if_splits)
  show thesis
  proof (cases "Visited (space s ! nat index) > 0 \<and> Visited (space s ! nat index) \<le> depth")
    case True
    with r i have "s' = s" by (simp add: RecTraverse_body_enter del: pencil_loop.simps)
    with True i show thesis by (intro pruned) simp_all
  next
    case False
    with r i have l: "pencil_loop (RecTraverse fuel) index depth [0, 1] (enter index depth s) = Inr s'"
      by (simp add: RecTraverse_body_enter del: pencil_loop.simps split: if_splits)
    have n: "nat index < length (space (enter index depth s))"
      using i by (simp add: enter_facts(1)[OF i])
    have wb: "well_behaved (RecTraverse fuel) (depth + 1)"
      using assms(2) by (intro well_behaved_RecTraverse) simp
    have "same_rules (space s ! nat index) (space (enter index depth s) ! nat index)"
      using i by (simp add: enter_facts(5)[OF i] same_rules_SetVisited)
    note b = branches_same_rules[OF this]
    from pencil_loop_try_states[OF wb _ _ n, of "[0, 1]"] l assms(2)
    have "map_sum (\<lambda>e. e) snd (try_states (RecTraverse fuel)
        (concat (map (branches (space (enter index depth s) ! nat index)) [0, 1])) depth
        (enter index depth s)) = Inr s'"
      by (simp del: pencil_loop.simps)
    from map_sum_snd_Inr[OF this] obtain ret where "try_states (RecTraverse fuel)
        (concat (map (branches (space (enter index depth s) ! nat index)) [0, 1])) depth
        (enter index depth s) = Inr (ret, s')"
      by blast
    then have "try_states (RecTraverse fuel)
         (branches (space s ! nat index) 0 @ branches (space s ! nat index) 1) depth
         (enter index depth s) = Inr (ret, s')"
      by (simp add: b del: try_states.simps)
    with False i show thesis by (intro visit) simp_all
  qed
qed

text \<open>
  C8, as the code has it. A call of \<open>RecTraverse\<close> at a depth of at least 1 that returns:
  when the counter of its index is set and at most the depth, it changes nothing;
  otherwise it sets that counter to the depth, also over a larger value from an earlier
  visit, and the counter has that value when the call returns. Whatever the call and
  the calls inside it do to any counter, a counter that changes becomes a depth that
  is at least the depth of the call and is smaller than the old value, unless the old
  value was 0: a counter that is set never goes back to 0 and never goes up.
\<close>

theorem first_seen_depth_only_decreases:
  assumes "RecTraverse fuel index depth s = Inr s'" and "1 \<le> depth"
  shows "(Visited (space s ! nat index) > 0 \<and> Visited (space s ! nat index) \<le> depth
            \<longrightarrow> s' = s) \<and>
         (\<not> (Visited (space s ! nat index) > 0 \<and> Visited (space s ! nat index) \<le> depth)
            \<longrightarrow> Visited (space s' ! nat index) = depth) \<and>
         (\<forall>i < length (space s).
            Visited (space s' ! i) = Visited (space s ! i) \<or>
            depth \<le> Visited (space s' ! i) \<and>
            (Visited (space s ! i) \<le> 0 \<or> Visited (space s' ! i) < Visited (space s ! i)))"
proof (intro conjI)
  obtain n where fuel: "fuel = Suc n" using assms(1) by (cases fuel) simp_all
  from assms(1) have r: "RecTraverse (Suc n) index depth s = Inr s'" by (simp add: fuel)
  show "Visited (space s ! nat index) > 0 \<and> Visited (space s ! nat index) \<le> depth \<longrightarrow> s' = s"
    using r assms(2) by (cases rule: RecTraverse_Suc_cases) auto
  show "\<not> (Visited (space s ! nat index) > 0 \<and> Visited (space s ! nat index) \<le> depth)
            \<longrightarrow> Visited (space s' ! nat index) = depth"
    using r assms(2)
  proof (cases rule: RecTraverse_Suc_cases)
    case pruned
    then show ?thesis by simp
  next
    case (visit ret)
    have wb: "well_behaved (RecTraverse n) (depth + 1)"
      using assms(2) by (intro well_behaved_RecTraverse) simp
    have "0 \<le> depth" using assms(2) by simp
    from try_states_descends[OF wb this visit(4)]
    have d: "descends (depth + 1) (enter index depth s) s'" .
    from visit(1,2) have i: "0 \<le> index" "index < int (length (space s))" by simp_all
    from descends_visited[OF d, of "nat index"] visit(2) enter_facts(1,6)[OF i, of depth]
    have "visited (space s' ! nat index) = depth \<or>
       depth + 1 \<le> visited (space s' ! nat index) \<and>
       (depth \<le> 0 \<or> visited (space s' ! nat index) < depth)"
      by simp
    with assms(2) show ?thesis by (auto simp: Visited_def)
  qed
  show "\<forall>i < length (space s).
            Visited (space s' ! i) = Visited (space s ! i) \<or>
            depth \<le> Visited (space s' ! i) \<and>
            (Visited (space s ! i) \<le> 0 \<or> Visited (space s' ! i) < Visited (space s ! i))"
    using RecTraverse_descends[OF assms] by (simp add: descends_def Visited_def)
qed

text \<open>
  C9, as the code has it. When the primary successor of a pencil is an illegal state,
  the loop over the pencils writes one message and \<open>RecTraverse\<close> returns at once: the
  result does not depend on the alternate successor of that pencil, on the pencils that
  are still to come, or on what a recursive call would do.
\<close>

theorem illegal_successor_ends_visit:
  assumes "NextState (space s ! nat index) pencil = Some nxt" and "IllegalP nxt"
  shows "pencil_loop rec index depth (pencil # pencils) s =
           Inr (s\<lparr>out := out s @ [IllegalStateEncountered]\<rparr>)"
  using assms by (simp add: try_state_def)

section \<open>The array of the searcher, evaluated\<close>

lemma the_space:
  shows "Searcher_new = Some the_space" and "length the_space = 2048"
    and "n < 2048 \<Longrightarrow> the_space ! n = the (transition_of (state_at (int n)))"
proof -
  from Searcher_new_table obtain sp where sp: "Searcher_new = Some sp" "length sp = 2048"
    "\<forall>i. 0 \<le> i \<and> i < 2048 \<longrightarrow> sp ! nat i = the (transition_of (state_at i))"
    by blast
  have eq: "the_space = sp" by (simp only: the_space_def sp(1) option.sel)
  show "Searcher_new = Some the_space" "length the_space = 2048" using sp eq by simp_all
  show "the_space ! n = the (transition_of (state_at (int n)))" if "n < 2048"
    using sp(3)[rule_format, of "int n"] that eq by simp
qed

lemma RecTraverse_numeral:
  "RecTraverse (numeral k) = RecTraverse_body (RecTraverse (pred_numeral k))"
  by (simp add: numeral_eq_Suc)

lemmas table_defs = transition_of_def state_at_def SetCurrentState_def Transition_new_def
  State_new_def

text \<open>Index 238: both pencils on box 26, no flag set.\<close>

lemma the_space_238:
  "the_space ! 238 =
     \<lparr>current = \<lparr>pencil0 = 7, pencil1 = 7, rule60active = False,
                  pencilMoved0 = False, pencilMoved1 = False\<rparr>,
      next0 = \<lparr>pencil0 = ILLEGAL_MAZEPOINT, pencil1 = ILLEGAL_MAZEPOINT, rule60active = False,
                pencilMoved0 = False, pencilMoved1 = False\<rparr>,
      next1 = \<lparr>pencil0 = ILLEGAL_MAZEPOINT, pencil1 = ILLEGAL_MAZEPOINT, rule60active = False,
                pencilMoved0 = False, pencilMoved1 = False\<rparr>,
      altNext0 = State_new, altNext1 = State_new, visited = 0,
      altNextValid0 = False, altNextValid1 = False\<rparr>"
  by (simp add: the_space(3) table_defs rule_defs)

lemmas traverse_defs = RecTraverse_numeral RecTraverse_body_def try_state_def NextState_def
  AltNextState_def AltNextValidP_def IllegalP_def GoalP_def Visited_def SetVisited_def
  CurrentState_def DumpStackTrace_def ComputeIndex_def MovementP_def Pencil_def pencil_at_def
  Rule60P_def GetMazePointIndex_def MAZEPOINT_def Let_def

lemma visit_238:
  "RecTraverse 2049 238 1 (initial_search the_space) =
     Inr ((enter 238 1 (initial_search the_space))\<lparr>out := [IllegalStateEncountered]\<rparr>)"
  by (simp add: traverse_defs initial_search_def enter_def the_space(2) the_space_238)

text \<open>
  C9 as stated fails. In the state with both pencils on box 26 and no flag set, the
  primary successors of both pencils are illegal states. The visit of that state writes
  one message, for pencil 0, and returns: the successor of pencil 1 is not looked at,
  or there would be a second message.
\<close>

theorem illegal_successor_counterexample:
  "Searcher_new = Some the_space \<and>
   map_option IllegalP (NextState (the_space ! 238) 0) = Some True \<and>
   map_option IllegalP (NextState (the_space ! 238) 1) = Some True \<and>
   RecTraverse 2049 238 1 (initial_search the_space) =
     Inr ((enter 238 1 (initial_search the_space))\<lparr>out := [IllegalStateEncountered]\<rparr>)"
  using visit_238 the_space(1)
  by (simp add: the_space_238 NextState_def IllegalP_def)

theorem illegal_successor_ends_visit_witness:
  "pencil_loop (RecTraverse 0) 238 1 [0, 1] (enter 238 1 (initial_search the_space)) =
     Inr ((enter 238 1 (initial_search the_space))\<lparr>out := [IllegalStateEncountered]\<rparr>)"
proof -
  have e: "space (enter 238 1 (initial_search the_space)) ! 238 = SetVisited (the_space ! 238) 1"
    "out (enter 238 1 (initial_search the_space)) = []"
    by (simp_all add: enter_def initial_search_def the_space(2) Let_def)
  show ?thesis
    using illegal_successor_ends_visit[of "enter 238 1 (initial_search the_space)" 238 0
        "next0 (the_space ! 238)" "RecTraverse 0" 1 "[1]"]
    by (simp add: e the_space_238 SetVisited_def NextState_def IllegalP_def
        del: pencil_loop.simps)
qed

theorem first_seen_depth_only_decreases_witness:
  "Visited (space (initial_search the_space) ! 238) = 0 \<and>
   Visited (space ((enter 238 1 (initial_search the_space))\<lparr>out := [IllegalStateEncountered]\<rparr>) ! 238) = 1"
  using first_seen_depth_only_decreases[OF visit_238]
  by (simp add: initial_search_def the_space_238 Visited_def)

text \<open>Indices 63 and so on: the states of a small traversal, started from boxes 2 and 75
  with the rule of box 60 on.\<close>

lemma the_space_63:
  "the_space ! 63 =
     \<lparr>current = \<lparr>pencil0 = 1, pencil1 = 15, rule60active = True, pencilMoved0 = False, pencilMoved1 = False\<rparr>,
      next0 = \<lparr>pencil0 = 5, pencil1 = 15, rule60active = True, pencilMoved0 = True, pencilMoved1 = False\<rparr>,
      next1 = \<lparr>pencil0 = 1, pencil1 = 10, rule60active = True, pencilMoved0 = False, pencilMoved1 = True\<rparr>,
      altNext0 = State_new, altNext1 = State_new, visited = 0,
      altNextValid0 = False, altNextValid1 = False\<rparr>"
  by (simp add: the_space(3) table_defs rule_defs)

lemma the_space_1215:
  "the_space ! 1215 =
     \<lparr>current = \<lparr>pencil0 = 5, pencil1 = 15, rule60active = True, pencilMoved0 = True, pencilMoved1 = False\<rparr>,
      next0 = \<lparr>pencil0 = 2, pencil1 = 15, rule60active = True, pencilMoved0 = True, pencilMoved1 = False\<rparr>,
      next1 = \<lparr>pencil0 = 5, pencil1 = 10, rule60active = True, pencilMoved0 = False, pencilMoved1 = True\<rparr>,
      altNext0 = State_new, altNext1 = State_new, visited = 0,
      altNextValid0 = False, altNextValid1 = False\<rparr>"
  by (simp add: the_space(3) table_defs rule_defs)

lemma the_space_1119:
  "the_space ! 1119 =
     \<lparr>current = \<lparr>pencil0 = 2, pencil1 = 15, rule60active = True, pencilMoved0 = True, pencilMoved1 = False\<rparr>,
      next0 = \<lparr>pencil0 = 1, pencil1 = 15, rule60active = True, pencilMoved0 = True, pencilMoved1 = False\<rparr>,
      next1 = \<lparr>pencil0 = 2, pencil1 = 10, rule60active = True, pencilMoved0 = False, pencilMoved1 = True\<rparr>,
      altNext0 = State_new, altNext1 = State_new, visited = 0,
      altNextValid0 = False, altNextValid1 = False\<rparr>"
  by (simp add: the_space(3) table_defs rule_defs)

lemma the_space_1087:
  "the_space ! 1087 =
     \<lparr>current = \<lparr>pencil0 = 1, pencil1 = 15, rule60active = True, pencilMoved0 = True, pencilMoved1 = False\<rparr>,
      next0 = \<lparr>pencil0 = 5, pencil1 = 15, rule60active = True, pencilMoved0 = True, pencilMoved1 = False\<rparr>,
      next1 = \<lparr>pencil0 = 1, pencil1 = 10, rule60active = True, pencilMoved0 = False, pencilMoved1 = True\<rparr>,
      altNext0 = State_new, altNext1 = State_new, visited = 0,
      altNextValid0 = False, altNextValid1 = False\<rparr>"
  by (simp add: the_space(3) table_defs rule_defs)

lemma the_space_565:
  "the_space ! 565 =
     \<lparr>current = \<lparr>pencil0 = 1, pencil1 = 10, rule60active = True, pencilMoved0 = False, pencilMoved1 = True\<rparr>,
      next0 = \<lparr>pencil0 = 5, pencil1 = 10, rule60active = True, pencilMoved0 = True, pencilMoved1 = False\<rparr>,
      next1 = \<lparr>pencil0 = 1, pencil1 = GOAL_MAZEPOINT, rule60active = True, pencilMoved0 = False, pencilMoved1 = True\<rparr>,
      altNext0 = State_new, altNext1 = State_new, visited = 0,
      altNextValid0 = False, altNextValid1 = False\<rparr>"
  by (simp add: the_space(3) table_defs rule_defs)

lemma the_space_1205:
  "the_space ! 1205 =
     \<lparr>current = \<lparr>pencil0 = 5, pencil1 = 10, rule60active = True, pencilMoved0 = True, pencilMoved1 = False\<rparr>,
      next0 = \<lparr>pencil0 = 2, pencil1 = 10, rule60active = True, pencilMoved0 = True, pencilMoved1 = False\<rparr>,
      next1 = \<lparr>pencil0 = 5, pencil1 = GOAL_MAZEPOINT, rule60active = True, pencilMoved0 = False, pencilMoved1 = True\<rparr>,
      altNext0 = State_new, altNext1 = State_new, visited = 0,
      altNextValid0 = False, altNextValid1 = False\<rparr>"
  by (simp add: the_space(3) table_defs rule_defs)

lemma the_space_1109:
  "the_space ! 1109 =
     \<lparr>current = \<lparr>pencil0 = 2, pencil1 = 10, rule60active = True, pencilMoved0 = True, pencilMoved1 = False\<rparr>,
      next0 = \<lparr>pencil0 = 1, pencil1 = 10, rule60active = True, pencilMoved0 = True, pencilMoved1 = False\<rparr>,
      next1 = \<lparr>pencil0 = 2, pencil1 = GOAL_MAZEPOINT, rule60active = True, pencilMoved0 = False, pencilMoved1 = True\<rparr>,
      altNext0 = State_new, altNext1 = State_new, visited = 0,
      altNextValid0 = False, altNextValid1 = False\<rparr>"
  by (simp add: the_space(3) table_defs rule_defs)

lemma the_space_1077:
  "the_space ! 1077 =
     \<lparr>current = \<lparr>pencil0 = 1, pencil1 = 10, rule60active = True, pencilMoved0 = True, pencilMoved1 = False\<rparr>,
      next0 = \<lparr>pencil0 = 5, pencil1 = 10, rule60active = True, pencilMoved0 = True, pencilMoved1 = False\<rparr>,
      next1 = \<lparr>pencil0 = 1, pencil1 = GOAL_MAZEPOINT, rule60active = True, pencilMoved0 = False, pencilMoved1 = True\<rparr>,
      altNext0 = State_new, altNext1 = State_new, visited = 0,
      altNextValid0 = False, altNextValid1 = False\<rparr>"
  by (simp add: the_space(3) table_defs rule_defs)

lemma the_space_597:
  "the_space ! 597 =
     \<lparr>current = \<lparr>pencil0 = 2, pencil1 = 10, rule60active = True, pencilMoved0 = False, pencilMoved1 = True\<rparr>,
      next0 = \<lparr>pencil0 = 1, pencil1 = 10, rule60active = True, pencilMoved0 = True, pencilMoved1 = False\<rparr>,
      next1 = \<lparr>pencil0 = 2, pencil1 = GOAL_MAZEPOINT, rule60active = True, pencilMoved0 = False, pencilMoved1 = True\<rparr>,
      altNext0 = State_new, altNext1 = State_new, visited = 0,
      altNextValid0 = False, altNextValid1 = False\<rparr>"
  by (simp add: the_space(3) table_defs rule_defs)

lemma the_space_693:
  "the_space ! 693 =
     \<lparr>current = \<lparr>pencil0 = 5, pencil1 = 10, rule60active = True, pencilMoved0 = False, pencilMoved1 = True\<rparr>,
      next0 = \<lparr>pencil0 = 2, pencil1 = 10, rule60active = True, pencilMoved0 = True, pencilMoved1 = False\<rparr>,
      next1 = \<lparr>pencil0 = 5, pencil1 = GOAL_MAZEPOINT, rule60active = True, pencilMoved0 = False, pencilMoved1 = True\<rparr>,
      altNext0 = State_new, altNext1 = State_new, visited = 0,
      altNextValid0 = False, altNextValid1 = False\<rparr>"
  by (simp add: the_space(3) table_defs rule_defs)


text \<open>
  C8 as stated fails. Start a traversal at index 63 (pencils on boxes 2 and 75, rule of
  box 60 on). Its visit sets the counter of 63 and calls \<open>RecTraverse\<close> for the successor
  of pencil 0, index 1215, at depth 2; when that call returns, the counter of index 565
  is 5. The visit then calls \<open>RecTraverse\<close> for the successor of pencil 1, which is
  index 565, at depth 2, and that later visit of the same index overwrites the 5 by 2.
\<close>

theorem first_seen_depth_overwritten_counterexample:
  "map_option ComputeIndex (NextState (the_space ! 63) 0) = Some (Some 1215) \<and>
   map_option ComputeIndex (NextState (the_space ! 63) 1) = Some (Some 565) \<and>
   first_seen (RecTraverse 2048 1215 2 (enter 63 1 (initial_search the_space))) 565 = Some 5 \<and>
   first_seen (and_then (RecTraverse 2048 1215 2 (enter 63 1 (initial_search the_space)))
                 (RecTraverse 2048 565 2)) 565 = Some 2 \<and>
   RecTraverse 2049 63 1 (initial_search the_space) =
     and_then (RecTraverse 2048 1215 2 (enter 63 1 (initial_search the_space)))
       (RecTraverse 2048 565 2)"
  by (simp add: traverse_defs initial_search_def enter_def the_space(2) first_seen_def
      and_then_def the_space_63 the_space_1215 the_space_1119 the_space_1087 the_space_565
      the_space_1205 the_space_1109 the_space_1077 the_space_597 the_space_693)

section \<open>The successors in the array\<close>

text \<open>What a rule records depends on the current state of the transition only.\<close>

lemma DNS_independent:
  assumes "legal (current trs)" "p = 0 \<or> p = 1" "current trs' = current trs"
  shows "case (DetermineNextStates p trs, DetermineNextStates p trs') of
           (Some (t, path), Some (t', path')) \<Rightarrow>
              path = path' \<and> NextState t p = NextState t' p \<and>
              (Pencil (current trs) p = Some 55 \<longrightarrow> AltNextState t p = AltNextState t' p)
         | _ \<Rightarrow> False"
proof -
  from assms(1) obtain a b r m0 m1 where
    c: "current trs = \<lparr>pencil0 = a, pencil1 = b, rule60active = r, pencilMoved0 = m0, pencilMoved1 = m1\<rparr>"
    and a: "0 \<le> a" "a < 16" and b: "0 \<le> b" "b < 16"
    by (rule legal_state_cases)
  from c assms(3) have c': "current trs' = \<lparr>pencil0 = a, pencil1 = b, rule60active = r,
      pencilMoved0 = m0, pencilMoved1 = m1\<rparr>" by simp
  show ?thesis
    using int16_cases[OF a] int16_cases[OF b] assms(2)
    by (elim disjE) (simp_all add: c c' rule_defs)
qed

lemma branches_transition_of:
  assumes "legal c" "p = 0 \<or> p = 1" "transition_of c = Some t"
  shows "branches t p = successors c p" and "current t = c" and "visited t = 0"
proof -
  let ?f = "SetCurrentState Transition_new c"
  have l: "legal (current ?f)" using assms(1) by (simp add: SetCurrentState_def)
  from DNS_total[OF l, of 0] obtain t0 path0 where d0: "DetermineNextStates 0 ?f = Some (t0, path0)"
    by auto
  note f0 = DNS_frame_facts[OF l _ d0, simplified]
  from f0(1) l have l0: "legal (current t0)" by simp
  from DNS_total[OF l0, of 1] obtain t1 path1 where d1: "DetermineNextStates 1 t0 = Some (t1, path1)"
    by auto
  note f1 = DNS_frame_facts[OF l0 _ d1, simplified]
  from d0 d1 assms(3) have t: "t = t1" by (simp add: transition_of_def)
  show "current t = c" using f0(1) f1(1) t by (simp add: SetCurrentState_def)
  show "visited t = 0" using f0(2) f1(2) t by (simp add: SetCurrentState_def Transition_new_def)
  show "branches t p = successors c p"
  proof (cases "p = 0")
    case True
    have "branches t1 0 = branches t0 0"
      using f1(3,4,5) by (simp add: branches_def)
    with d0 t True show ?thesis by (simp add: successors_def)
  next
    case False
    with assms(2) have p: "p = 1" by simp
    from DNS_total[OF l, of 1] obtain u path where d: "DetermineNextStates 1 ?f = Some (u, path)"
      by auto
    note fu = DNS_frame_facts[OF l _ d, simplified]
    have cur: "current ?f = current t0" using f0(1) by simp
    from DNS_independent[OF l0 _ cur, of 1] d d1
    have i: "NextState t1 1 = NextState u 1"
      "Pencil (current t0) 1 = Some 55 \<longrightarrow> AltNextState t1 1 = AltNextState u 1"
      by simp_all
    have fresh: "AltNextValidP ?f 1 = Some False"
      by (simp add: AltNextValidP_def SetCurrentState_def Transition_new_def)
    have "branches t1 1 = branches u 1"
    proof (cases "Pencil (current ?f) 1 = Some 55")
      case True
      with f1(6) fu(6) f0(1) i show ?thesis by (simp add: branches_def)
    next
      case False
      with f1(7) fu(7) f0(1,5) i fresh show ?thesis by (simp add: branches_def)
    qed
    with d t p show ?thesis by (simp add: successors_def)
  qed
qed

lemma successors_wf:
  assumes "legal c" "p = 0 \<or> p = 1" "x \<in> set (successors c p)"
  shows "IllegalP x \<or> GoalP x \<or> legal x"
    and "clear_of_deadlock c \<Longrightarrow> \<not> IllegalP x"
    and "clear_of_deadlock c \<Longrightarrow> \<not> GoalP x \<Longrightarrow> clear_of_deadlock x"
proof -
  let ?f = "SetCurrentState Transition_new c"
  have l: "legal (current ?f)" and cur: "current ?f = c"
    using assms(1) by (simp_all add: SetCurrentState_def)
  from DNS_total[OF l assms(2)] obtain t' path where d: "DetermineNextStates p ?f = Some (t', path)"
    by auto
  from NextState_total[OF assms(2)] obtain n where n: "NextState t' p = Some n" by blast
  from AltNextState_total[OF assms(2)] obtain alt where a: "AltNextState t' p = Some alt" by blast
  from Pencil_total[OF l assms(2)] obtain box where b: "Pencil (current ?f) p = Some box" by blast
  from Pencil_total[OF l other_pencil[OF assms(2)]] obtain other
    where o: "Pencil (current ?f) (1 - p) = Some other" by blast
  note nf = DNS_next_facts(11-13)[OF l assms(2) d n b o, unfolded cur]
  have fresh: "AltNextValidP ?f p = Some False"
    using assms(2) by (auto simp: AltNextValidP_def SetCurrentState_def Transition_new_def)
  have "x = n \<or> (box = 55 \<and> x = alt)"
  proof (cases "box = 55")
    case True
    with assms(3) d n a show ?thesis
      by (auto simp: successors_def branches_def split: option.splits bool.splits)
  next
    case False
    with DNS_frame_facts(7)[OF l assms(2) d] b fresh have "AltNextValidP t' p = Some False"
      by simp
    with assms(3) d n show ?thesis by (simp add: successors_def branches_def)
  qed
  then consider "x = n" | "box = 55" "x = alt" by blast
  then have "(IllegalP x \<or> GoalP x \<or> legal x) \<and>
      (clear_of_deadlock c \<longrightarrow> \<not> IllegalP x \<and> (\<not> GoalP x \<longrightarrow> clear_of_deadlock x))"
  proof cases
    case 1
    with nf show ?thesis by blast
  next
    case 2
    from b 2 have b55: "Pencil (current ?f) p = Some 55" by simp
    from DNS_alt_facts(7,8)[OF l assms(2) b55 d n a, unfolded cur]
    have la: "legal alt" "clear_of_deadlock c \<Longrightarrow> clear_of_deadlock alt" by simp_all
    from la(1) have "\<not> IllegalP alt" by (auto simp: legal_def IllegalP_def)
    with la 2 show ?thesis by blast
  qed
  then show "IllegalP x \<or> GoalP x \<or> legal x"
    and "clear_of_deadlock c \<Longrightarrow> \<not> IllegalP x"
    and "clear_of_deadlock c \<Longrightarrow> \<not> GoalP x \<Longrightarrow> clear_of_deadlock x"
    by blast+
qed

lemma legal_not_special: "legal c \<Longrightarrow> \<not> IllegalP c \<and> \<not> GoalP c"
  by (auto simp: legal_def IllegalP_def GoalP_def)

lemma not_special_legal:
  assumes "IllegalP x \<or> GoalP x \<or> legal x" "\<not> IllegalP x" "\<not> GoalP x"
  shows "legal x"
  using assms by blast

text \<open>In the array of the searcher, with any counters, the successors of the entry at
  an index are those of the state with that index.\<close>

lemma builtD:
  assumes "built sp" "i < 2048" "transition_of (state_at (int i)) = Some t"
  shows "same_rules t (sp ! i)" and "length sp = 2048"
proof -
  from assms(1) have "\<forall>i < 2048. same_rules (the (transition_of (state_at (int i)))) (sp ! i)"
    and len: "length sp = 2048"
    by (simp_all add: built_def)
  from this(1)[rule_format, OF assms(2)] assms(3) show "same_rules t (sp ! i)" by simp
  show "length sp = 2048" by (rule len)
qed

lemma built_branches:
  assumes "built sp" "i < 2048" "p = 0 \<or> p = 1"
  shows "branches (sp ! i) p = successors (state_at (int i)) p"
    and "current (sp ! i) = state_at (int i)"
proof -
  from transition_of_total[OF legal_state_at] obtain t
    where t: "transition_of (state_at (int i)) = Some t" by blast
  from builtD(1)[OF assms(1,2) t] have sr: "same_rules t (sp ! i)" .
  from branches_same_rules[OF sr] branches_transition_of(1)[OF legal_state_at assms(3) t]
  show "branches (sp ! i) p = successors (state_at (int i)) p" by simp
  from same_rules_fields(1)[OF sr] branches_transition_of(2)[OF legal_state_at _ t, of 0]
  show "current (sp ! i) = state_at (int i)" by simp
qed

lemma built_the_space: "built the_space"
  by (simp add: built_def the_space(2,3) same_rules_refl)

lemma the_space_unvisited: "i < 2048 \<Longrightarrow> visited (the_space ! i) = 0"
proof -
  assume i: "i < 2048"
  from transition_of_total[OF legal_state_at] obtain t
    where t: "transition_of (state_at (int i)) = Some t" by blast
  from branches_transition_of(3)[OF legal_state_at _ t, of 0] the_space(3)[OF i] t
  show ?thesis by simp
qed

lemma descends_built:
  assumes "descends d s s'" "built (space s)"
  shows "built (space s')"
  unfolding built_def
proof (intro conjI allI impI)
  show "length (space s') = 2048" using assms by (simp add: descends_def built_def)
  fix i :: nat assume i: "i < 2048"
  from transition_of_total[OF legal_state_at] obtain t
    where t: "transition_of (state_at (int i)) = Some t" by blast
  from builtD[OF assms(2) i t] have 1: "same_rules t (space s ! i)" "i < length (space s)"
    using i by simp_all
  from same_rules_trans[OF 1(1) descends_same_rules[OF assms(1) 1(2)]] t
  show "same_rules (the (transition_of (state_at (int i)))) (space s' ! i)"
    by simp
qed

section \<open>The traversal returns\<close>

lemma finite_unpruned: "finite (unpruned s d)"
  by (simp add: unpruned_def)

lemma card_unpruned_le: "card (unpruned s d) \<le> length (space s)"
proof -
  have "unpruned s d \<subseteq> {..< length (space s)}" by (auto simp: unpruned_def)
  from card_mono[OF _ this] show ?thesis by simp
qed

text \<open>Inside a visit that is not pruned, fewer indices are left that a visit one level
  deeper would not prune: the index of the visit itself is no longer one of them.\<close>

lemma unpruned_shrinks:
  assumes i: "0 \<le> index" "index < int (length (space s))"
    and np: "\<not> (Visited (space s ! nat index) > 0 \<and> Visited (space s ! nat index) \<le> depth)"
    and d: "1 \<le> depth"
    and desc: "descends (depth + 1) (enter index depth s) s1"
  shows "card (unpruned s1 (depth + 1)) < card (unpruned s depth)"
proof -
  let ?e = "enter index depth s"
  have len: "length (space s1) = length (space s)"
    using descends_length(1)[OF desc] enter_facts(1)[OF i] by simp
  have here: "nat index \<in> unpruned s depth"
    using i np by (simp add: unpruned_def)
  have sub: "unpruned s1 (depth + 1) \<subseteq> unpruned s depth - {nat index}"
  proof
    fix k assume k: "k \<in> unpruned s1 (depth + 1)"
    then have kl: "k < length (space s)" and
      knp: "\<not> (visited (space s1 ! k) > 0 \<and> visited (space s1 ! k) \<le> depth + 1)"
      by (simp_all add: unpruned_def len Visited_def)
    from kl have kle: "k < length (space ?e)" by (simp add: enter_facts(1)[OF i])
    note v = descends_visited[OF desc kle]
    have ve: "visited (space ?e ! k) = (if k = nat index then depth else visited (space s ! k))"
      using kl by (simp add: enter_facts(5)[OF i] SetVisited_def)
    have "k \<noteq> nat index"
    proof
      assume "k = nat index"
      with v ve knp d show False by auto
    qed
    moreover have "\<not> (visited (space s ! k) > 0 \<and> visited (space s ! k) \<le> depth)"
      using v ve knp \<open>k \<noteq> nat index\<close> by auto
    ultimately show "k \<in> unpruned s depth - {nat index}"
      using kl by (simp add: unpruned_def Visited_def)
  qed
  with here have "unpruned s1 (depth + 1) \<subset> unpruned s depth" by blast
  from psubset_card_mono[OF finite_unpruned this] show ?thesis .
qed

lemma try_states_returns:
  assumes H: "\<forall>j s1. descends (depth + 1) e s1 \<and> 0 \<le> j \<and> j < 2048 \<longrightarrow>
               (\<exists>s2. rec j (depth + 1) s1 = Inr s2)"
    and wb: "well_behaved rec (depth + 1)" and d: "0 \<le> depth"
    and xs: "\<forall>x\<in>set xs. IllegalP x \<or> GoalP x \<or> legal x"
    and e: "descends (depth + 1) e s1"
  shows "\<exists>r. try_states rec xs depth s1 = Inr r"
  using xs e
proof (induction xs arbitrary: s1)
  case Nil
  show ?case by (rule exI[of _ "(False, s1)"]) simp
next
  case (Cons x xs)
  show ?case
  proof (cases "IllegalP x \<or> GoalP x")
    case True
    then obtain s' where "try_state rec x depth s1 = Inr (True, s')"
      by (cases "IllegalP x") (simp_all add: try_state_def)
    then have "try_states rec (x # xs) depth s1 = Inr (True, s')" by simp
    then show ?thesis by (rule exI)
  next
    case False
    with Cons.prems(1) have l: "legal x" by auto
    from ComputeIndex_legal[OF l] obtain j where j: "ComputeIndex x = Some j" by blast
    from ComputeIndex_range[OF l j] have jr: "0 \<le> j" "j < 2048" by (simp_all add: TotalStates_def)
    from H Cons.prems(2) jr obtain s2 where s2: "rec j (depth + 1) s1 = Inr s2" by blast
    with wb have "descends (depth + 1) s1 s2" by (simp add: well_behaved_def)
    with Cons.prems(2) have "descends (depth + 1) e s2"
      by (rule descends_trans) (use d in simp)
    from Cons.IH[OF _ this] Cons.prems(1) obtain r where "try_states rec xs depth s2 = Inr r"
      by auto
    moreover from False j s2 have "try_state rec x depth s1 = Inr (False, s2)"
      by (simp add: try_state_def)
    ultimately have "try_states rec (x # xs) depth s1 = Inr r" by simp
    then show ?thesis by (rule exI)
  qed
qed

lemma built_successors_wf:
  assumes "built sp" "i < 2048"
  shows "\<forall>x\<in>set (branches (sp ! i) 0 @ branches (sp ! i) 1). IllegalP x \<or> GoalP x \<or> legal x"
  using built_branches(1)[OF assms] successors_wf(1)[OF legal_state_at, of _ _ "int i"]
  by auto

lemma RecTraverse_returns:
  assumes "built (space s)" "0 \<le> index" "index < 2048" "1 \<le> depth"
    and "length (stackTrace s) = 300" and "card (unpruned s depth) < fuel"
  shows "\<exists>s'. RecTraverse fuel index depth s = Inr s'"
  using assms
proof (induction fuel arbitrary: index depth s)
  case 0
  then show ?case by simp
next
  case (Suc fuel)
  from Suc.prems(1) have len: "length (space s) = 2048" by (simp add: built_def)
  with Suc.prems(2,3) have i: "0 \<le> index" "index < int (length (space s))" by simp_all
  show ?case
  proof (cases "Visited (space s ! nat index) > 0 \<and> Visited (space s ! nat index) \<le> depth")
    case True
    with i show ?thesis by (simp add: RecTraverse_body_enter del: pencil_loop.simps)
  next
    case False
    let ?e = "enter index depth s"
    let ?xs = "branches (space s ! nat index) 0 @ branches (space s ! nat index) 1"
    have wb: "well_behaved (RecTraverse fuel) (depth + 1)"
      using Suc.prems(4) by (intro well_behaved_RecTraverse) simp
    have d0: "0 \<le> depth" using Suc.prems(4) by simp
    have H: "\<forall>j s1. descends (depth + 1) ?e s1 \<and> 0 \<le> j \<and> j < 2048 \<longrightarrow>
               (\<exists>s2. RecTraverse fuel j (depth + 1) s1 = Inr s2)"
    proof (intro allI impI, elim conjE)
      fix j :: int and s1
      assume desc: "descends (depth + 1) ?e s1" and j: "0 \<le> j" "j < 2048"
      have "descends depth s ?e" by (rule enter_descends[OF i False])
      from descends_built[OF this Suc.prems(1)] have "built (space ?e)" .
      from descends_built[OF desc this] have b1: "built (space s1)" .
      have st: "length (stackTrace s1) = 300"
        using descends_length(2)[OF desc] enter_facts(2)[OF i] Suc.prems(5) by simp
      from unpruned_shrinks[OF i False Suc.prems(4) desc] Suc.prems(6)
      have "card (unpruned s1 (depth + 1)) < fuel" by simp
      from Suc.IH[OF b1 j _ st this] Suc.prems(4)
      show "\<exists>s2. RecTraverse fuel j (depth + 1) s1 = Inr s2" by simp
    qed
    have ne: "nat index < length (space ?e)" using i by (simp add: enter_facts(1)[OF i])
    have ni: "nat index < 2048" using Suc.prems(2,3) by simp
    have "same_rules (space s ! nat index) (space ?e ! nat index)"
      using i by (simp add: enter_facts(5)[OF i] same_rules_SetVisited)
    note b = branches_same_rules[OF this]
    from try_states_returns[OF H wb d0 built_successors_wf[OF Suc.prems(1) ni] descends_refl]
    obtain r where r: "try_states (RecTraverse fuel) ?xs depth ?e = Inr r" by blast
    have "pencil_loop (RecTraverse fuel) index depth [0, 1] ?e =
        map_sum (\<lambda>e. e) snd (try_states (RecTraverse fuel) ?xs depth ?e)"
      using pencil_loop_try_states[OF wb d0 _ ne, of "[0, 1]"]
      by (simp add: b del: pencil_loop.simps try_states.simps)
    with r have "pencil_loop (RecTraverse fuel) index depth [0, 1] ?e = Inr (snd r)"
      by (simp del: pencil_loop.simps try_states.simps)
    moreover have "\<not> (depth \<le> TRACE_ENTRIES \<and>
        (depth - 1 < 0 \<or> int (length (stackTrace s)) \<le> depth - 1))"
      using Suc.prems(4,5) by simp
    ultimately show ?thesis
      using i False by (simp add: RecTraverse_body_enter del: pencil_loop.simps)
  qed
qed

lemma initial_search_facts:
  shows "space (initial_search sp) = sp" and "length (stackTrace (initial_search sp)) = 300"
    and "maxDepth (initial_search sp) = 0" and "out (initial_search sp) = []"
  by (simp_all add: initial_search_def)

text \<open>
  C3. On the array that the constructor builds, with all counters 0, the traversal
  started at depth 1 from the index of any state with both pencils on maze points
  returns, and with a result, not by an abort: for \<open>RecTraverse\<close> in the model this is
  every bound on the depth of the recursion above 2048, the number of transitions.
\<close>

theorem traversal_returns:
  assumes "legal start" and "2048 < fuel"
  shows "\<exists>sp index s'. Searcher_new = Some sp \<and> ComputeIndex start = Some index \<and>
           RecTraverse fuel index 1 (initial_search sp) = Inr s'"
proof -
  from ComputeIndex_legal[OF assms(1)] obtain index where i: "ComputeIndex start = Some index"
    by blast
  from ComputeIndex_range[OF assms(1) i] have ir: "0 \<le> index" "index < 2048"
    by (simp_all add: TotalStates_def)
  have "card (unpruned (initial_search the_space) 1) \<le> 2048"
    using card_unpruned_le[of "initial_search the_space" 1]
    by (simp add: initial_search_facts the_space(2))
  with assms(2) have c: "card (unpruned (initial_search the_space) 1) < fuel" by simp
  have b: "built (space (initial_search the_space))"
    by (simp add: initial_search_facts built_the_space)
  from RecTraverse_returns[OF b ir _ initial_search_facts(2) c]
  obtain s' where "RecTraverse fuel index 1 (initial_search the_space) = Inr s'" by auto
  with i the_space(1) show ?thesis by blast
qed

theorem traversal_returns_witness:
  "\<exists>sp index s'. Searcher_new = Some sp \<and>
      ComputeIndex \<lparr>pencil0 = 15, pencil1 = 2, rule60active = True,
                     pencilMoved0 = False, pencilMoved1 = True\<rparr> = Some index \<and>
      RecTraverse 3000 index 1 (initial_search sp) = Inr s'"
  by (rule traversal_returns) (simp_all add: legal_def)

section \<open>The traversal from the start state\<close>

subsection \<open>No illegal state on the way\<close>

lemma try_states_no_illegal:
  assumes IH: "\<And>j s1 s2. RecTraverse fuel j (depth + 1) s1 = Inr s2 \<Longrightarrow> built (space s1) \<Longrightarrow>
      clear_of_deadlock (state_at j) \<Longrightarrow> IllegalStateEncountered \<notin> set (out s1) \<Longrightarrow>
      IllegalStateEncountered \<notin> set (out s2)"
    and d: "0 \<le> depth"
    and xs: "\<forall>x\<in>set xs. \<not> IllegalP x \<and> (\<not> GoalP x \<longrightarrow> clear_of_deadlock x)"
    and run: "try_states (RecTraverse fuel) xs depth s1 = Inr (ret, s')"
    and b: "built (space s1)" and no: "IllegalStateEncountered \<notin> set (out s1)"
  shows "IllegalStateEncountered \<notin> set (out s')"
  using xs run b no
proof (induction xs arbitrary: s1)
  case Nil
  then show ?case by simp
next
  case (Cons x xs)
  have wb: "well_behaved (RecTraverse fuel) (depth + 1)"
    using d by (intro well_behaved_RecTraverse) simp
  have step: "IllegalStateEncountered \<notin> set (out s2) \<and> built (space s2)"
    if "try_state (RecTraverse fuel) x depth s1 = Inr (r, s2)" for r s2
    using that
  proof (cases rule: try_state_cases)
    case illegal
    with Cons.prems(1) show ?thesis by simp
  next
    case goal
    with Cons.prems(3,4) show ?thesis by (simp add: DumpStackTrace_def)
  next
    case (descend j)
    with Cons.prems(1) have c: "clear_of_deadlock x" by simp
    then have l: "legal x" by (simp add: clear_of_deadlock_def)
    from state_at_ComputeIndex[OF l descend(4)] c have "clear_of_deadlock (state_at j)" by simp
    from IH[OF descend(5) Cons.prems(3) this Cons.prems(4)]
    have "IllegalStateEncountered \<notin> set (out s2)" .
    moreover from wb descend(5) have "descends (depth + 1) s1 s2"
      by (simp add: well_behaved_def)
    from descends_built[OF this Cons.prems(3)] have "built (space s2)" .
    ultimately show ?thesis by simp
  qed
  from Cons.prems(2) show ?case
  proof (cases rule: try_states_Cons_cases)
    case stop
    with step show ?thesis by blast
  next
    case (go s2)
    from step[OF go(1)] Cons.IH[OF _ go(2)] Cons.prems(1) show ?thesis by simp
  qed
qed

lemma RecTraverse_no_illegal:
  assumes "RecTraverse fuel index depth s = Inr s'" "1 \<le> depth" "built (space s)"
    and "clear_of_deadlock (state_at index)" "IllegalStateEncountered \<notin> set (out s)"
  shows "IllegalStateEncountered \<notin> set (out s')"
  using assms
proof (induction fuel arbitrary: index depth s s')
  case 0
  then show ?case by simp
next
  case (Suc fuel)
  from Suc.prems(1,2) show ?case
  proof (cases rule: RecTraverse_Suc_cases)
    case pruned
    with Suc.prems(5) show ?thesis by simp
  next
    case (visit ret)
    from Suc.prems(3) have len: "length (space s) = 2048" by (simp add: built_def)
    with visit(1,2) have i: "0 \<le> index" "index < int (length (space s))" "nat index < 2048"
      by simp_all
    let ?e = "enter index depth s"
    have be: "built (space ?e)"
      by (rule descends_built[OF enter_descends[OF i(1,2) visit(3)] Suc.prems(3)])
    have oe: "IllegalStateEncountered \<notin> set (out ?e)"
      using Suc.prems(5) by (simp add: enter_facts(3)[OF i(1,2)])
    have c: "state_at (int (nat index)) = state_at index" using i(1) by simp
    have xs: "\<forall>x\<in>set (branches (space s ! nat index) 0 @ branches (space s ! nat index) 1).
        \<not> IllegalP x \<and> (\<not> GoalP x \<longrightarrow> clear_of_deadlock x)"
    proof
      fix x assume "x \<in> set (branches (space s ! nat index) 0 @ branches (space s ! nat index) 1)"
      with built_branches(1)[OF Suc.prems(3) i(3), of 0]
        built_branches(1)[OF Suc.prems(3) i(3), of 1] c
      obtain p :: int where p: "p = 0 \<or> p = 1" "x \<in> set (successors (state_at index) p)"
        by auto
      from successors_wf(2,3)[OF legal_state_at p] Suc.prems(4)
      show "\<not> IllegalP x \<and> (\<not> GoalP x \<longrightarrow> clear_of_deadlock x)" by blast
    qed
    have d0: "0 \<le> depth" using Suc.prems(2) by simp
    show ?thesis
    proof (rule try_states_no_illegal[OF _ d0 xs visit(4) be oe])
      fix j s1 s2
      assume "RecTraverse fuel j (depth + 1) s1 = Inr s2" "built (space s1)"
        "clear_of_deadlock (state_at j)" "IllegalStateEncountered \<notin> set (out s1)"
      with Suc.IH[of j "depth + 1" s1 s2] Suc.prems(2)
      show "IllegalStateEncountered \<notin> set (out s2)" by simp
    qed
  qed
qed

subsection \<open>The maximal depth\<close>

lemma try_states_maxDepth:
  assumes IH: "\<And>j s1 s2. RecTraverse fuel j (depth + 1) s1 = Inr s2 \<Longrightarrow>
      maxDepth s2 \<le> max (maxDepth s1) (depth + 1 + int (card (unpruned s1 (depth + 1))) - 1)"
    and i: "0 \<le> index" "index < int (length (space s))"
    and np: "\<not> (Visited (space s ! nat index) > 0 \<and> Visited (space s ! nat index) \<le> depth)"
    and d: "1 \<le> depth"
    and run: "try_states (RecTraverse fuel) xs depth s1 = Inr (ret, s')"
    and desc: "descends (depth + 1) (enter index depth s) s1"
    and m: "maxDepth s1 \<le> M" and M: "depth + int (card (unpruned s depth)) - 1 \<le> M"
  shows "maxDepth s' \<le> M"
  using run desc m
proof (induction xs arbitrary: s1)
  case Nil
  then show ?case by simp
next
  case (Cons x xs)
  have wb: "well_behaved (RecTraverse fuel) (depth + 1)"
    using d by (intro well_behaved_RecTraverse) simp
  have step: "maxDepth s2 \<le> M \<and> descends (depth + 1) (enter index depth s) s2"
    if t: "try_state (RecTraverse fuel) x depth s1 = Inr (r, s2)" for r s2
  proof -
    have d12: "descends (depth + 1) s1 s2" by (rule try_state_descends[OF wb t])
    have "descends (depth + 1) (enter index depth s) s2"
      by (rule descends_trans[OF Cons.prems(2) d12]) (use d in simp)
    moreover have "maxDepth s2 \<le> M"
      using t
    proof (cases rule: try_state_cases)
      case illegal
      with Cons.prems(3) show ?thesis by simp
    next
      case goal
      with Cons.prems(3) show ?thesis by simp
    next
      case (descend j)
      from unpruned_shrinks[OF i np d Cons.prems(2)] M
      have "depth + 1 + int (card (unpruned s1 (depth + 1))) - 1 \<le> M" by simp
      with IH[OF descend(5)] Cons.prems(3) show ?thesis by simp
    qed
    ultimately show ?thesis by simp
  qed
  from Cons.prems(1) show ?case
  proof (cases rule: try_states_Cons_cases)
    case stop
    with step show ?thesis by blast
  next
    case (go s2)
    from step[OF go(1)] Cons.IH[OF go(2)] show ?thesis by simp
  qed
qed

lemma RecTraverse_maxDepth:
  assumes "RecTraverse fuel index depth s = Inr s'" "1 \<le> depth"
  shows "maxDepth s' \<le> max (maxDepth s) (depth + int (card (unpruned s depth)) - 1)"
  using assms
proof (induction fuel arbitrary: index depth s s')
  case 0
  then show ?case by simp
next
  case (Suc fuel)
  from Suc.prems(1,2) show ?case
  proof (cases rule: RecTraverse_Suc_cases)
    case pruned
    then show ?thesis by simp
  next
    case (visit ret)
    from visit(1,2) have i: "0 \<le> index" "index < int (length (space s))" by simp_all
    let ?M = "max (maxDepth s) (depth + int (card (unpruned s depth)) - 1)"
    have "nat index \<in> unpruned s depth" using visit(2,3) by (simp add: unpruned_def)
    then have "card (unpruned s depth) \<noteq> 0" using finite_unpruned[of s depth] by auto
    then have "maxDepth (enter index depth s) \<le> ?M"
      by (simp add: enter_facts(4)[OF i])
    from try_states_maxDepth[OF _ i visit(3) Suc.prems(2) visit(4) descends_refl this]
      Suc.IH[of _ "depth + 1"] Suc.prems(2)
    show ?thesis by simp
  qed
qed

subsection \<open>Without a message, every index reached is settled\<close>

lemma descends_out_same:
  assumes "descends d s s'" "descends d s' s''" "out s'' = out s"
  shows "out s' = out s" "out s'' = out s'"
proof -
  from assms(1) obtain ms where 1: "out s' = out s @ ms" unfolding descends_def by blast
  from assms(2) obtain ms' where 2: "out s'' = out s' @ ms'" unfolding descends_def by blast
  from 1 2 assms(3) have "ms = []" "ms' = []" by simp_all
  with 1 2 show "out s' = out s" "out s'' = out s'" by simp_all
qed

lemma stamped_mono:
  assumes "descends d s s'" "1 \<le> d" "i < length (space s)" "0 < visited (space s ! i)"
  shows "0 < visited (space s' ! i)"
  using descends_visited[OF assms(1,3)] assms(2,4) by auto

lemma settled_mono:
  assumes "descends d s s'" "1 \<le> d" "length (space s) = 2048" "settled s i"
  shows "settled s' i"
  unfolding settled_def
proof (intro ballI)
  fix p :: int and x
  assume p: "p \<in> {0, 1}" and x: "x \<in> set (successors (state_at (int i)) p)"
  with assms(4) obtain j where j: "\<not> IllegalP x" "\<not> GoalP x" "ComputeIndex x = Some j"
    "0 < visited (space s ! nat j)"
    unfolding settled_def by blast
  from ComputeIndex_range[OF ComputeIndex_Some_legal[OF j(3)] j(3)] assms(3)
  have "nat j < length (space s)" by (simp add: TotalStates_def)
  from stamped_mono[OF assms(1,2) this j(4)] j(1,2,3)
  show "\<not> IllegalP x \<and> \<not> GoalP x \<and>
      (\<exists>j. ComputeIndex x = Some j \<and> 0 < visited (space s' ! nat j))"
    by blast
qed

lemma try_states_settles:
  assumes IH: "\<And>j s1 s2. RecTraverse fuel j (depth + 1) s1 = Inr s2 \<Longrightarrow> built (space s1) \<Longrightarrow>
      out s2 = out s1 \<Longrightarrow> unsettled s2 \<subseteq> unsettled s1 \<and> 0 < visited (space s2 ! nat j)"
    and d: "0 \<le> depth"
    and run: "try_states (RecTraverse fuel) xs depth s1 = Inr (ret, s')"
    and b: "built (space s1)" and same: "out s' = out s1"
  shows "unsettled s' \<subseteq> unsettled s1 \<and>
         (\<forall>x\<in>set xs. \<not> IllegalP x \<and> \<not> GoalP x \<and>
            (\<exists>j. ComputeIndex x = Some j \<and> 0 < visited (space s' ! nat j)))"
  using run b same
proof (induction xs arbitrary: s1)
  case Nil
  then show ?case by simp
next
  case (Cons x xs)
  have wb: "well_behaved (RecTraverse fuel) (depth + 1)"
    using d by (intro well_behaved_RecTraverse) simp
  have d1: "1 \<le> depth + 1" using d by simp
  from Cons.prems(1) show ?case
  proof (cases rule: try_states_Cons_cases)
    case stop
    from stop(1) show ?thesis
    proof (cases rule: try_state_cases)
      case illegal
      with Cons.prems(3) show ?thesis by simp
    next
      case goal
      with Cons.prems(3) show ?thesis by simp
    next
      case (descend j)
      then show ?thesis by simp
    qed
  next
    case (go s2)
    have d12: "descends (depth + 1) s1 s2" by (rule try_state_descends[OF wb go(1)])
    have d2': "descends (depth + 1) s2 s'" by (rule try_states_descends[OF wb d go(2)])
    note o = descends_out_same[OF d12 d2' Cons.prems(3)]
    have b2: "built (space s2)" by (rule descends_built[OF d12 Cons.prems(2)])
    from Cons.IH[OF go(2) b2 o(2)]
    have rest: "unsettled s' \<subseteq> unsettled s2"
      "\<forall>x\<in>set xs. \<not> IllegalP x \<and> \<not> GoalP x \<and>
            (\<exists>j. ComputeIndex x = Some j \<and> 0 < visited (space s' ! nat j))"
      by simp_all
    from go(1) have first: "unsettled s2 \<subseteq> unsettled s1 \<and> \<not> IllegalP x \<and> \<not> GoalP x \<and>
            (\<exists>j. ComputeIndex x = Some j \<and> 0 < visited (space s' ! nat j))"
    proof (cases rule: try_state_cases)
      case illegal
      then show ?thesis by simp
    next
      case goal
      then show ?thesis by simp
    next
      case (descend j)
      from IH[OF descend(5) Cons.prems(2) o(1)]
      have 1: "unsettled s2 \<subseteq> unsettled s1" "0 < visited (space s2 ! nat j)" by simp_all
      from ComputeIndex_range[OF ComputeIndex_Some_legal[OF descend(4)] descend(4)]
      have "nat j < length (space s2)"
        using b2 by (simp add: TotalStates_def built_def)
      from stamped_mono[OF d2' d1 this 1(2)] 1(1) descend(1,2,4) show ?thesis by blast
    qed
    with rest show ?thesis by auto
  qed
qed

lemma RecTraverse_settles:
  assumes "RecTraverse fuel index depth s = Inr s'" "1 \<le> depth" "built (space s)"
    and "out s' = out s"
  shows "unsettled s' \<subseteq> unsettled s \<and> 0 < visited (space s' ! nat index)"
  using assms
proof (induction fuel arbitrary: index depth s s')
  case 0
  then show ?case by simp
next
  case (Suc fuel)
  from Suc.prems(1,2) show ?case
  proof (cases rule: RecTraverse_Suc_cases)
    case pruned
    then show ?thesis by (simp add: Visited_def)
  next
    case (visit ret)
    from Suc.prems(3) have len: "length (space s) = 2048" by (simp add: built_def)
    with visit(1,2) have i: "0 \<le> index" "index < int (length (space s))" "nat index < 2048"
      by simp_all
    let ?e = "enter index depth s"
    have de: "descends depth s ?e" by (rule enter_descends[OF i(1,2) visit(3)])
    have be: "built (space ?e)" by (rule descends_built[OF de Suc.prems(3)])
    have oe: "out s' = out ?e" using Suc.prems(4) by (simp add: enter_facts(3)[OF i(1,2)])
    have d0: "0 \<le> depth" and d1: "1 \<le> depth + 1" using Suc.prems(2) by simp_all
    have wb: "well_behaved (RecTraverse fuel) (depth + 1)"
      using d0 by (intro well_behaved_RecTraverse) simp
    have inner: "unsettled s' \<subseteq> unsettled ?e \<and>
         (\<forall>x\<in>set (branches (space s ! nat index) 0 @ branches (space s ! nat index) 1).
            \<not> IllegalP x \<and> \<not> GoalP x \<and>
            (\<exists>j. ComputeIndex x = Some j \<and> 0 < visited (space s' ! nat j)))"
    proof (rule try_states_settles[OF _ d0 visit(4) be oe])
      fix j s1 s2
      assume "RecTraverse fuel j (depth + 1) s1 = Inr s2" "built (space s1)" "out s2 = out s1"
      with Suc.IH[of j "depth + 1" s1 s2] Suc.prems(2)
      show "unsettled s2 \<subseteq> unsettled s1 \<and> 0 < visited (space s2 ! nat j)" by simp
    qed
    have c: "state_at (int (nat index)) = state_at index" using i(1) by simp
    have "settled s' (nat index)"
      unfolding settled_def
    proof (intro ballI)
      fix p :: int and x
      assume p: "p \<in> {0, 1}" and x: "x \<in> set (successors (state_at (int (nat index))) p)"
      from p have "p = 0 \<or> p = 1" by simp
      from built_branches(1)[OF Suc.prems(3) i(3) this] x p
      have "x \<in> set (branches (space s ! nat index) 0 @ branches (space s ! nat index) 1)"
        by auto
      with inner show "\<not> IllegalP x \<and> \<not> GoalP x \<and>
          (\<exists>j. ComputeIndex x = Some j \<and> 0 < visited (space s' ! nat j))"
        by blast
    qed
    then have 1: "nat index \<notin> unsettled s'" by (simp add: unsettled_def)
    have 2: "unsettled ?e \<subseteq> unsettled s \<union> {nat index}"
    proof
      fix k assume k: "k \<in> unsettled ?e"
      show "k \<in> unsettled s \<union> {nat index}"
      proof (cases "k = nat index")
        case True
        then show ?thesis by simp
      next
        case False
        from k have k2: "k < 2048" "0 < visited (space ?e ! k)" "\<not> settled ?e k"
          by (simp_all add: unsettled_def)
        from k2(2) False have "0 < visited (space s ! k)"
          by (simp add: enter_facts(5)[OF i(1,2)])
        moreover from settled_mono[OF de Suc.prems(2) len] k2(3) have "\<not> settled s k" by blast
        ultimately show ?thesis using k2(1) by (simp add: unsettled_def)
      qed
    qed
    have d': "descends (depth + 1) ?e s'" by (rule try_states_descends[OF wb d0 visit(4)])
    have "nat index < length (space ?e)" using i by (simp add: enter_facts(1)[OF i(1,2)])
    from stamped_mono[OF d' d1 this] Suc.prems(2)
    have 3: "0 < visited (space s' ! nat index)"
      by (simp add: enter_facts(6)[OF i(1,2)])
    from inner 1 2 3 show ?thesis by blast
  qed
qed

subsection \<open>The way to the goal\<close>

lemma follow_moves:
  assumes "follow c ps = Some c'"
  shows "\<exists>boxes. moves c boxes c'"
  using assms
proof (induction ps arbitrary: c)
  case Nil
  then show ?case by (auto intro: moves_none)
next
  case (Cons p ps)
  from Cons.prems have l: "legal c" and p: "p = 0 \<or> p = 1"
    by (auto split: if_splits)
  from Cons.prems l p obtain n ns where n: "successors c p = n # ns" "follow n ps = Some c'"
    by (auto split: list.splits)
  from Cons.IH[OF n(2)] obtain boxes where "moves n boxes c'" by blast
  moreover from Pencil_total[OF l p] obtain box where "Pencil c p = Some box" by blast
  moreover have "n \<in> set (successors c p)" using n(1) by simp
  ultimately show ?case using l p by (blast intro: moves_step)
qed

lemma settled_moves:
  assumes "moves c boxes c'" and "unsettled s = {}" and "length (space s) = 2048"
    and "legal c" and "ComputeIndex c = Some i" and "0 < visited (space s ! nat i)"
  shows "legal c'"
  using assms
proof (induction arbitrary: i rule: moves.induct)
  case (moves_none c)
  then show ?case by simp
next
  case (moves_step c p box c' boxes c'')
  from ComputeIndex_range[OF moves_step.prems(3,4)]
  have ir: "0 \<le> i" "nat i < 2048" by (simp_all add: TotalStates_def)
  with moves_step.prems(1,5) have "settled s (nat i)" by (auto simp: unsettled_def)
  moreover have "state_at (int (nat i)) = c"
    using state_at_ComputeIndex[OF moves_step.prems(3,4)] ir(1) by simp
  ultimately obtain j where j: "\<not> IllegalP c'" "\<not> GoalP c'" "ComputeIndex c' = Some j"
    "0 < visited (space s ! nat j)"
    using moves_step.hyps(2,4) unfolding settled_def by auto
  from ComputeIndex_Some_legal[OF j(3)] have "legal c'" .
  from moves_step.IH[OF moves_step.prems(1,2) this j(3,4)] show ?case .
qed

text \<open>Thirty-seven moves from the start state, boxes 1 and 7, to a goal.\<close>

lemma way_to_goal:
  "follow \<lparr>pencil0 = 0, pencil1 = 3, rule60active = False, pencilMoved0 = False, pencilMoved1 = False\<rparr>
     [0, 0, 0, 0, 1, 0, 0, 0, 0, 1, 1, 1, 1, 1, 0, 0, 0, 1, 1, 0, 0, 0, 0, 0, 0, 0, 0, 0, 0, 0,
      1, 0, 1, 1, 0, 1, 0] =
   Some \<lparr>pencil0 = GOAL_MAZEPOINT, pencil1 = 10, rule60active = False,
          pencilMoved0 = True, pencilMoved1 = False\<rparr>"
  by (simp add: successors_def branches_def SetCurrentState_def Transition_new_def State_new_def
      legal_def rule_defs)

subsection \<open>The run of the program\<close>

lemma start_index:
  "do { start \<leftarrow> SetPencil State_new 0 START_PENCIL_0;
        start \<leftarrow> SetPencil start 1 START_PENCIL_1;
        ComputeIndex start } = Some 6"
  "state_at 6 = \<lparr>pencil0 = 0, pencil1 = 3, rule60active = False,
                  pencilMoved0 = False, pencilMoved1 = False\<rparr>"
  by (simp_all add: START_PENCIL_0_def START_PENCIL_1_def State_new_def SetPencil_def
      GetMazePointIndex_def MAZEPOINT_def ComputeIndex_def MovementP_def Pencil_def pencil_at_def
      Rule60P_def state_at_def)

lemma run_search_eq:
  "run_search fuel =
     (case RecTraverse fuel 6 1 (initial_search the_space) of
        Inl e \<Rightarrow> Inl e
      | Inr s \<Rightarrow> Inr (s\<lparr>out := out s @ [MaximalDepth (maxDepth s)]\<rparr>))"
  by (simp add: run_search_def the_space(1) StartTraversal_def start_index(1) initial_search_def
      Let_def)

lemma initial_unsettled: "unsettled (initial_search the_space) = {}"
  by (auto simp: unsettled_def initial_search_facts the_space_unvisited)

lemma start_run:
  assumes "2048 < fuel"
  obtains s where "RecTraverse fuel 6 1 (initial_search the_space) = Inr s"
    and "IllegalStateEncountered \<notin> set (out s)"
    and "\<exists>depth. GoalStateEncountered depth \<in> set (out s)"
    and "1 \<le> maxDepth s" and "maxDepth s \<le> 2048"
proof -
  let ?s0 = "initial_search the_space"
  let ?start = "\<lparr>pencil0 = 0, pencil1 = 3, rule60active = False,
                  pencilMoved0 = False, pencilMoved1 = False\<rparr>"
  have b: "built (space ?s0)" by (simp add: initial_search_facts built_the_space)
  have card: "card (unpruned ?s0 1) \<le> 2048"
    using card_unpruned_le[of ?s0 1] by (simp add: initial_search_facts the_space(2))
  with assms have c: "card (unpruned ?s0 1) < fuel" by simp
  from RecTraverse_returns[OF b _ _ _ initial_search_facts(2) c, of 6]
  obtain s where run: "RecTraverse fuel 6 1 ?s0 = Inr s" by auto
  have d: "descends 1 ?s0 s" by (rule RecTraverse_descends[OF run]) simp
  have clear: "clear_of_deadlock (state_at 6)"
    by (simp add: start_index(2) clear_of_deadlock_def legal_def)
  have no_illegal: "IllegalStateEncountered \<notin> set (out s)"
    by (rule RecTraverse_no_illegal[OF run _ b clear]) (simp_all add: initial_search_facts)
  have goal: "\<exists>depth. GoalStateEncountered depth \<in> set (out s)"
  proof (rule ccontr)
    assume none: "\<not> (\<exists>depth. GoalStateEncountered depth \<in> set (out s))"
    from d obtain ms where ms: "out s = out ?s0 @ ms"
      "ms \<noteq> [] \<longrightarrow> (\<exists>m\<in>set ms. m = IllegalStateEncountered \<or> (\<exists>k. m = GoalStateEncountered k))"
      unfolding descends_def by blast
    from ms none no_illegal have "ms = []" by (auto simp: initial_search_facts)
    with ms(1) have same: "out s = out ?s0" by simp
    from RecTraverse_settles[OF run _ b same] initial_unsettled
    have closed: "unsettled s = {}" and root: "0 < visited (space s ! nat 6)" by auto
    have len: "length (space s) = 2048"
      using descends_length(1)[OF d] by (simp add: initial_search_facts the_space(2))
    from follow_moves[OF way_to_goal] obtain boxes where
      m: "moves ?start boxes \<lparr>pencil0 = GOAL_MAZEPOINT, pencil1 = 10, rule60active = False,
          pencilMoved0 = True, pencilMoved1 = False\<rparr>"
      by blast
    have l: "legal ?start" by (simp add: legal_def)
    have i: "ComputeIndex ?start = Some 6"
      using ComputeIndex_state_at[of 6] by (simp add: start_index(2))
    from settled_moves[OF m closed len l i root]
    show False by (simp add: legal_def)
  qed
  from run have "fuel \<noteq> 0" by (cases fuel) simp_all
  then obtain n where n: "fuel = Suc n" by (cases fuel) simp_all
  have one: "(1::int) \<le> 1" by simp
  have lower: "1 \<le> maxDepth s"
    using run[unfolded n] one
  proof (cases rule: RecTraverse_Suc_cases)
    case pruned
    then show ?thesis by (simp add: initial_search_facts the_space_unvisited Visited_def)
  next
    case (visit ret)
    have wb: "well_behaved (RecTraverse n) (1 + 1)"
      by (intro well_behaved_RecTraverse) simp
    from try_states_descends[OF wb _ visit(4)]
    have "descends (1 + 1) (enter 6 1 ?s0) s" by simp
    then have "maxDepth (enter 6 1 ?s0) \<le> maxDepth s" by (simp add: descends_def)
    moreover from visit(1,2) have "maxDepth (enter 6 1 ?s0) = 1"
      using enter_facts(4)[of 6 ?s0 1] by (simp add: initial_search_facts)
    ultimately show ?thesis by simp
  qed
  have upper: "maxDepth s \<le> 2048"
    using RecTraverse_maxDepth[OF run] card by (simp add: initial_search_facts)
  from that[OF run no_illegal goal lower upper] show thesis .
qed

text \<open>
  C1, as the code has it. The program builds its array and starts the traversal from
  the state with pencil 0 on box 1, pencil 1 on box 7 and no flag set. For every bound
  on the depth of the recursion above 2048, the traversal returns; its output has at
  least one message that the goal state was encountered and no message that an illegal
  state was encountered; the maximal depth that it reports last is between 1 and 2048.
\<close>

theorem start_traversal_reaches_goal:
  assumes "2048 < fuel"
  shows "\<exists>s. run_search fuel = Inr s \<and>
           (\<exists>depth. GoalStateEncountered depth \<in> set (out s)) \<and>
           IllegalStateEncountered \<notin> set (out s) \<and>
           1 \<le> maxDepth s \<and> maxDepth s \<le> 2048 \<and>
           last (out s) = MaximalDepth (maxDepth s)"
proof -
  from start_run[OF assms] obtain s where s: "RecTraverse fuel 6 1 (initial_search the_space) = Inr s"
    "IllegalStateEncountered \<notin> set (out s)" "\<exists>depth. GoalStateEncountered depth \<in> set (out s)"
    "1 \<le> maxDepth s" "maxDepth s \<le> 2048"
    by blast
  let ?r = "s\<lparr>out := out s @ [MaximalDepth (maxDepth s)]\<rparr>"
  have "run_search fuel = Inr ?r" by (simp add: run_search_eq s(1))
  moreover have "(\<exists>depth. GoalStateEncountered depth \<in> set (out ?r))" using s(3) by auto
  moreover have "IllegalStateEncountered \<notin> set (out ?r)" using s(2) by simp
  moreover have "1 \<le> maxDepth ?r" "maxDepth ?r \<le> 2048" using s(4,5) by simp_all
  moreover have "last (out ?r) = MaximalDepth (maxDepth ?r)" by simp
  ultimately show ?thesis by blast
qed

theorem start_traversal_reaches_goal_witness:
  "\<exists>s. run_search 2049 = Inr s \<and>
           (\<exists>depth. GoalStateEncountered depth \<in> set (out s)) \<and>
           IllegalStateEncountered \<notin> set (out s) \<and>
           1 \<le> maxDepth s \<and> maxDepth s \<le> 2048 \<and>
           last (out s) = MaximalDepth (maxDepth s)"
  by (rule start_traversal_reaches_goal) simp

text \<open>
  C1 as stated fails: the traversal from boxes 1 and 7 returns, writes no message about
  an illegal state, and does write messages that the goal state was encountered.
\<close>

theorem start_traversal_counterexample:
  "returned (run_search 2049) \<and>
   IllegalStateEncountered \<notin> set (messages (run_search 2049)) \<and>
   filter goal_message (messages (run_search 2049)) \<noteq> []"
proof -
  have "(2048::nat) < 2049" by simp
  from start_run[OF this] obtain s where s: "RecTraverse 2049 6 1 (initial_search the_space) = Inr s"
    "IllegalStateEncountered \<notin> set (out s)" "\<exists>depth. GoalStateEncountered depth \<in> set (out s)"
    by blast
  from s(3) obtain k where "GoalStateEncountered k \<in> set (out s)" by blast
  moreover have "goal_message (GoalStateEncountered k)" by simp
  ultimately have "\<exists>m\<in>set (out s). goal_message m" by (rule bexI[rotated])
  then have "filter goal_message (out s) \<noteq> []"
    by (simp add: filter_empty_conv)
  with s(1,2) show ?thesis
    by (simp add: run_search_eq returned_def messages_def)
qed

end
